theory Spec2Isabelle
  imports Complex_Main
begin

section \<open>Rules engine (gameLogic.js)\<close>

text \<open>
  A cell of the JavaScript board array holds a mark (\<open>'X'\<close> or \<open>'O'\<close>) or \<open>null\<close>. Reading an
  index outside the array yields \<open>undefined\<close>, and writing beyond the end leaves holes;
  both behave alike in every test the code makes (falsy, different from \<open>null\<close> and from
  both marks), so one constructor \<open>Undef\<close> stands for them.
\<close>

datatype mark = MarkX | MarkO

datatype cell = Null | Undef | Mk mark

type_synonym board = "cell list"

definition createEmptyBoard :: board where
  "createEmptyBoard = replicate 9 Null"

definition cellAt :: "board \<Rightarrow> nat \<Rightarrow> cell" where
  "cellAt board i = (if i < length board then board ! i else Undef)"

definition getLegalMoves :: "board \<Rightarrow> nat list" where
  "getLegalMoves board =
     map the (filter (\<lambda>val. val \<noteq> None)
       (map (\<lambda>(index, cell). if cell = Null then Some index else None) (enumerate 0 board)))"

definition makeMove :: "board \<Rightarrow> nat \<Rightarrow> mark \<Rightarrow> board" where
  "makeMove board position player =
     (if position < length board then board[position := Mk player]
      else board @ replicate (position - length board) Undef @ [Mk player])"

definition winPatterns :: "(nat \<times> nat \<times> nat) list" where
  "winPatterns =
     [(0, 1, 2), (3, 4, 5), (6, 7, 8), (0, 3, 6), (1, 4, 7), (2, 5, 8), (0, 4, 8), (2, 4, 6)]"

fun checkWinnerLoop :: "board \<Rightarrow> (nat \<times> nat \<times> nat) list \<Rightarrow> (mark \<times> nat list) option" where
  "checkWinnerLoop board [] = None"
| "checkWinnerLoop board ((a, b, c) # rest) =
     (case cellAt board a of
        Mk p \<Rightarrow>
          (if cellAt board a = cellAt board b \<and> cellAt board a = cellAt board c
           then Some (p, [a, b, c])
           else checkWinnerLoop board rest)
      | _ \<Rightarrow> checkWinnerLoop board rest)"

definition checkWinner :: "board \<Rightarrow> (mark \<times> nat list) option" where
  "checkWinner board = checkWinnerLoop board winPatterns"

definition isBoardFull :: "board \<Rightarrow> bool" where
  "isBoardFull board = list_all (\<lambda>cell. cell \<noteq> Null) board"

datatype winner = Won mark | Draw | NoWinner

record terminal_state =
  terminal :: bool
  winner :: winner
  line :: "nat list option"

definition isTerminal :: "board \<Rightarrow> terminal_state" where
  "isTerminal board =
     (case checkWinner board of
        Some (w, l) \<Rightarrow> \<lparr>terminal = True, winner = Won w, line = Some l\<rparr>
      | None \<Rightarrow>
          (if isBoardFull board then \<lparr>terminal = True, winner = Draw, line = None\<rparr>
           else \<lparr>terminal = False, winner = NoWinner, line = None\<rparr>))"

definition getOpponent :: "mark \<Rightarrow> mark" where
  "getOpponent player = (if player = MarkX then MarkO else MarkX)"

section \<open>Search values\<close>

text \<open>
  The search mixes finite scores with \<open>-Infinity\<close> and \<open>Infinity\<close>, and only compares
  them and takes maxima and minima. Scores are modelled as real numbers extended by the two
  infinities, ordered as in JavaScript.
\<close>

datatype jsnum = NegInf | Fin real | PosInf

instantiation jsnum :: linorder
begin

fun less_eq_jsnum :: "jsnum \<Rightarrow> jsnum \<Rightarrow> bool" where
  "less_eq_jsnum NegInf _ = True"
| "less_eq_jsnum (Fin a) NegInf = False"
| "less_eq_jsnum (Fin a) (Fin b) = (a \<le> b)"
| "less_eq_jsnum (Fin a) PosInf = True"
| "less_eq_jsnum PosInf PosInf = True"
| "less_eq_jsnum PosInf _ = False"

definition less_jsnum :: "jsnum \<Rightarrow> jsnum \<Rightarrow> bool" where
  "less_jsnum a b = (a \<le> b \<and> \<not> b \<le> a)"

instance
proof
  fix x y z :: jsnum
  show "(x < y) = (x \<le> y \<and> \<not> y \<le> x)" by (simp add: less_jsnum_def)
  show "x \<le> x" by (cases x) simp_all
  show "x \<le> y \<Longrightarrow> y \<le> z \<Longrightarrow> x \<le> z" by (cases x; cases y; cases z) simp_all
  show "x \<le> y \<Longrightarrow> y \<le> x \<Longrightarrow> x = y" by (cases x; cases y) simp_all
  show "x \<le> y \<or> y \<le> x" by (cases x; cases y) auto
qed

end

text \<open>
  An evaluator is any function passed as \<open>evaluateFunction\<close>: it scores a board for a player
  with a finite number, \<open>-Infinity\<close> or \<open>Infinity\<close>. The search only compares scores and
  takes maxima and minima of them. \<open>NaN\<close> is not a value of the search: it compares false with
  everything, so a search over it has no minimax value to speak of.
\<close>

type_synonym evaluator = "board \<Rightarrow> mark \<Rightarrow> jsnum"

section \<open>Alpha-beta search (alphaBeta.js)\<close>

function alphaBetaSearch ::
    "board \<Rightarrow> nat \<Rightarrow> jsnum \<Rightarrow> jsnum \<Rightarrow> bool \<Rightarrow> mark \<Rightarrow> evaluator \<Rightarrow> nat \<Rightarrow> jsnum"
  and maxLoop ::
    "board \<Rightarrow> nat \<Rightarrow> jsnum \<Rightarrow> jsnum \<Rightarrow> mark \<Rightarrow> evaluator \<Rightarrow> nat \<Rightarrow> nat list \<Rightarrow> jsnum \<Rightarrow> jsnum"
  and minLoop ::
    "board \<Rightarrow> nat \<Rightarrow> jsnum \<Rightarrow> jsnum \<Rightarrow> mark \<Rightarrow> evaluator \<Rightarrow> nat \<Rightarrow> nat list \<Rightarrow> jsnum \<Rightarrow> jsnum"
where
  "alphaBetaSearch board depth alpha beta isMaximizing aiPlayer evaluateFunction maxDepth =
     (if terminal (isTerminal board) then
        (if winner (isTerminal board) = Won aiPlayer then Fin (100 - real depth)
         else if winner (isTerminal board) = Won (getOpponent aiPlayer) then Fin (real depth - 100)
         else Fin 0)
      else if depth \<ge> maxDepth then evaluateFunction board aiPlayer
      else if isMaximizing then
        maxLoop board depth alpha beta aiPlayer evaluateFunction maxDepth (getLegalMoves board) NegInf
      else
        minLoop board depth alpha beta aiPlayer evaluateFunction maxDepth (getLegalMoves board) PosInf)"
| "maxLoop board depth alpha beta aiPlayer evaluateFunction maxDepth [] maxEval = maxEval"
| "maxLoop board depth alpha beta aiPlayer evaluateFunction maxDepth (move # rest) maxEval =
     (let evaluation = alphaBetaSearch (makeMove board move aiPlayer) (depth + 1) alpha beta False
                         aiPlayer evaluateFunction maxDepth
      in if beta \<le> max alpha evaluation then max maxEval evaluation
         else maxLoop board depth (max alpha evaluation) beta aiPlayer evaluateFunction maxDepth
                rest (max maxEval evaluation))"
| "minLoop board depth alpha beta aiPlayer evaluateFunction maxDepth [] minEval = minEval"
| "minLoop board depth alpha beta aiPlayer evaluateFunction maxDepth (move # rest) minEval =
     (let evaluation = alphaBetaSearch (makeMove board move (getOpponent aiPlayer)) (depth + 1)
                         alpha beta True aiPlayer evaluateFunction maxDepth
      in if min beta evaluation \<le> alpha then min minEval evaluation
         else minLoop board depth alpha (min beta evaluation) aiPlayer evaluateFunction maxDepth
                rest (min minEval evaluation))"
  by pat_completeness auto
termination
  by (relation "inv_image (less_than <*lex*> less_than <*lex*> less_than)
        (\<lambda>x. case x of
           Inl (b, d, al, be, im, ai, ev, md) \<Rightarrow> (md + 1 - d, 0, 0)
         | Inr (Inl (b, d, al, be, ai, ev, md, ms, me)) \<Rightarrow> (md - d, 1, length ms)
         | Inr (Inr (b, d, al, be, ai, ev, md, ms, me)) \<Rightarrow> (md - d, 1, length ms))")
     auto

record search_result =
  bestMove :: "nat option"
  bestValue :: jsnum
  moveEvaluations :: "(nat \<times> jsnum) list"

text \<open>
  The root loop of \<open>findBestMove\<close>: \<open>acc\<close> carries \<open>bestMove\<close>, \<open>bestValue\<close> and the
  list \<open>moveEvaluations\<close> pushed so far.
\<close>

fun findBestMoveLoop ::
    "board \<Rightarrow> mark \<Rightarrow> evaluator \<Rightarrow> nat \<Rightarrow> nat list \<Rightarrow> search_result \<Rightarrow> search_result" where
  "findBestMoveLoop board aiPlayer evaluateFunction maxDepth [] acc = acc"
| "findBestMoveLoop board aiPlayer evaluateFunction maxDepth (move # rest) acc =
     (let moveValue = alphaBetaSearch (makeMove board move aiPlayer) 0 NegInf PosInf False
                        aiPlayer evaluateFunction maxDepth;
          pushed = moveEvaluations acc @ [(move, moveValue)]
      in findBestMoveLoop board aiPlayer evaluateFunction maxDepth rest
           (if moveValue > bestValue acc
            then \<lparr>bestMove = Some move, bestValue = moveValue, moveEvaluations = pushed\<rparr>
            else acc\<lparr>moveEvaluations := pushed\<rparr>))"

definition findBestMove :: "board \<Rightarrow> mark \<Rightarrow> evaluator \<Rightarrow> nat \<Rightarrow> search_result" where
  "findBestMove board aiPlayer evaluateFunction maxDepth =
     findBestMoveLoop board aiPlayer evaluateFunction maxDepth (getLegalMoves board)
       \<lparr>bestMove = None, bestValue = NegInf, moveEvaluations = []\<rparr>"

text \<open>The value \<open>moveValue\<close> that the root loop computes for a legal move.\<close>

definition moveValue :: "board \<Rightarrow> mark \<Rightarrow> evaluator \<Rightarrow> nat \<Rightarrow> nat \<Rightarrow> jsnum" where
  "moveValue board aiPlayer evaluateFunction maxDepth move =
     alphaBetaSearch (makeMove board move aiPlayer) 0 NegInf PosInf False
       aiPlayer evaluateFunction maxDepth"

section \<open>Plain minimax, the reference the pruned search is compared with\<close>

text \<open>
  The specification compares the pruned search with a full minimax search of the same
  board, depth and evaluator. \<open>minimaxSearch\<close> is that reference: the same terminal
  scoring and depth cut-off, every legal move explored, no window.
\<close>

function minimaxSearch :: "board \<Rightarrow> nat \<Rightarrow> bool \<Rightarrow> mark \<Rightarrow> evaluator \<Rightarrow> nat \<Rightarrow> jsnum" where
  "minimaxSearch board depth isMaximizing aiPlayer evaluateFunction maxDepth =
     (if terminal (isTerminal board) then
        (if winner (isTerminal board) = Won aiPlayer then Fin (100 - real depth)
         else if winner (isTerminal board) = Won (getOpponent aiPlayer) then Fin (real depth - 100)
         else Fin 0)
      else if depth \<ge> maxDepth then evaluateFunction board aiPlayer
      else if isMaximizing then
        foldr max
          (map (\<lambda>move. minimaxSearch (makeMove board move aiPlayer) (depth + 1) False
                         aiPlayer evaluateFunction maxDepth)
               (getLegalMoves board))
          NegInf
      else
        foldr min
          (map (\<lambda>move. minimaxSearch (makeMove board move (getOpponent aiPlayer)) (depth + 1) True
                         aiPlayer evaluateFunction maxDepth)
               (getLegalMoves board))
          PosInf)"
  by pat_completeness auto
termination
  by (relation "measure (\<lambda>(b, d, im, ai, ev, md). md - d)") auto

text \<open>The root loop of \<open>findBestMove\<close> with the plain search in place of the pruned one.\<close>

fun findBestMoveMinimaxLoop ::
    "board \<Rightarrow> mark \<Rightarrow> evaluator \<Rightarrow> nat \<Rightarrow> nat list \<Rightarrow> search_result \<Rightarrow> search_result" where
  "findBestMoveMinimaxLoop board aiPlayer evaluateFunction maxDepth [] acc = acc"
| "findBestMoveMinimaxLoop board aiPlayer evaluateFunction maxDepth (move # rest) acc =
     (let moveValue = minimaxSearch (makeMove board move aiPlayer) 0 False
                        aiPlayer evaluateFunction maxDepth;
          pushed = moveEvaluations acc @ [(move, moveValue)]
      in findBestMoveMinimaxLoop board aiPlayer evaluateFunction maxDepth rest
           (if moveValue > bestValue acc
            then \<lparr>bestMove = Some move, bestValue = moveValue, moveEvaluations = pushed\<rparr>
            else acc\<lparr>moveEvaluations := pushed\<rparr>))"

definition findBestMoveMinimax :: "board \<Rightarrow> mark \<Rightarrow> evaluator \<Rightarrow> nat \<Rightarrow> search_result" where
  "findBestMoveMinimax board aiPlayer evaluateFunction maxDepth =
     findBestMoveMinimaxLoop board aiPlayer evaluateFunction maxDepth (getLegalMoves board)
       \<lparr>bestMove = None, bestValue = NegInf, moveEvaluations = []\<rparr>"

text \<open>The moves whose root value equals the best value of a search result.\<close>

definition bestMoveSet :: "search_result \<Rightarrow> nat set" where
  "bestMoveSet r = {m. (m, bestValue r) \<in> set (moveEvaluations r)}"

section \<open>Playing a game with the search as the policy (TicTacToe.jsx)\<close>

text \<open>
  The positions a game can reach when the AI side \<open>aiPlayer\<close> always plays the move returned
  by \<open>findBestMove\<close> (\<open>makeAIMove\<close>) and the other side clicks any empty cell
  (\<open>handleCellClick\<close>). The flag says whether the AI is to move. A game starts on the empty
  board with either side to move (\<open>startGame\<close>); nobody moves once the board is terminal.
\<close>

inductive gamePosition :: "mark \<Rightarrow> evaluator \<Rightarrow> nat \<Rightarrow> board \<Rightarrow> bool \<Rightarrow> bool"
  for aiPlayer :: mark and evaluateFunction :: evaluator and maxDepth :: nat where
  startGame: "gamePosition aiPlayer evaluateFunction maxDepth createEmptyBoard aiFirst"
| makeAIMove:
    "gamePosition aiPlayer evaluateFunction maxDepth board True \<Longrightarrow>
     \<not> terminal (isTerminal board) \<Longrightarrow>
     bestMove (findBestMove board aiPlayer evaluateFunction maxDepth) = Some move \<Longrightarrow>
     gamePosition aiPlayer evaluateFunction maxDepth (makeMove board move aiPlayer) False"
| handleCellClick:
    "gamePosition aiPlayer evaluateFunction maxDepth board False \<Longrightarrow>
     \<not> terminal (isTerminal board) \<Longrightarrow>
     cellAt board index = Null \<Longrightarrow>
     gamePosition aiPlayer evaluateFunction maxDepth
       (makeMove board index (getOpponent aiPlayer)) True"

text \<open>
  A bounded game-tree check used in the proofs: with \<open>n\<close> plies of fuel, the AI side can
  keep every terminal board it reaches from being a win of the other side, whatever the
  other side plays. The AI side's own moves are tried centre first, then corners, then
  edges; a candidate that is not an empty cell is skipped.
\<close>

definition tryOrder :: "nat list" where
  "tryOrder = [4, 0, 2, 6, 8, 1, 3, 5, 7]"

fun cannotLose :: "nat \<Rightarrow> mark \<Rightarrow> board \<Rightarrow> bool \<Rightarrow> bool"
  and someMove :: "nat \<Rightarrow> mark \<Rightarrow> board \<Rightarrow> nat list \<Rightarrow> bool"
  and everyMove :: "nat \<Rightarrow> mark \<Rightarrow> board \<Rightarrow> nat list \<Rightarrow> bool" where
  "cannotLose n aiPlayer board aiToMove =
     (case checkWinner board of
        Some wl \<Rightarrow> fst wl = aiPlayer
      | None \<Rightarrow>
          (if isBoardFull board then True
           else case n of
             0 \<Rightarrow> False
           | Suc k \<Rightarrow>
               (if aiToMove then someMove k aiPlayer board tryOrder
                else everyMove k aiPlayer board (getLegalMoves board))))"
| "someMove k aiPlayer board [] = False"
| "someMove k aiPlayer board (move # rest) =
     (if cellAt board move = Null then
        (if cannotLose k aiPlayer (makeMove board move aiPlayer) False then True
         else someMove k aiPlayer board rest)
      else someMove k aiPlayer board rest)"
| "everyMove k aiPlayer board [] = True"
| "everyMove k aiPlayer board (move # rest) =
     (if cannotLose k aiPlayer (makeMove board move (getOpponent aiPlayer)) True
      then everyMove k aiPlayer board rest
      else False)"

section \<open>Feature extraction (gameLogic.js, featureExtractor.js)\<close>

definition lines :: "(nat \<times> nat \<times> nat) list" where
  "lines =
     [(0, 1, 2), (3, 4, 5), (6, 7, 8), (0, 3, 6), (1, 4, 7), (2, 5, 8), (0, 4, 8), (2, 4, 6)]"

definition corners :: "nat list" where
  "corners = [0, 2, 6, 8]"

definition lineValues :: "board \<Rightarrow> nat \<times> nat \<times> nat \<Rightarrow> cell list" where
  "lineValues board l = (case l of (a, b, c) \<Rightarrow> [cellAt board a, cellAt board b, cellAt board c])"

definition countOf :: "cell \<Rightarrow> cell list \<Rightarrow> nat" where
  "countOf v cells = length (filter (\<lambda>c. c = v) cells)"

record features =
  playerMarks :: nat
  opponentMarks :: nat
  playerTwoInRow :: nat
  opponentTwoInRow :: nat
  playerOneInRow :: nat
  opponentOneInRow :: nat
  centerControl :: int
  playerCorners :: nat
  opponentCorners :: nat

text \<open>
  One pass of the loop over the lines in \<open>extractFeatures\<close>; the state is
  (playerTwoInRow, opponentTwoInRow, playerOneInRow, opponentOneInRow).
\<close>

definition lineStep ::
    "board \<Rightarrow> mark \<Rightarrow> nat \<times> nat \<times> nat \<times> nat \<Rightarrow> nat \<times> nat \<times> nat \<Rightarrow> nat \<times> nat \<times> nat \<times> nat" where
  "lineStep board player st l =
     (case st of (p2, o2, p1, o1) \<Rightarrow>
        let playerCount = countOf (Mk player) (lineValues board l);
            opponentCount = countOf (Mk (getOpponent player)) (lineValues board l);
            emptyCount = countOf Null (lineValues board l)
        in ((if playerCount = 2 \<and> emptyCount = 1 then p2 + 1 else p2),
            (if opponentCount = 2 \<and> emptyCount = 1 then o2 + 1 else o2),
            (if playerCount = 1 \<and> emptyCount = 2 then p1 + 1 else p1),
            (if opponentCount = 1 \<and> emptyCount = 2 then o1 + 1 else o1)))"

definition extractFeatures :: "board \<Rightarrow> mark \<Rightarrow> features" where
  "extractFeatures board player =
     (case foldl (lineStep board player) (0, 0, 0, 0) lines of (p2, o2, p1, o1) \<Rightarrow>
        \<lparr>playerMarks = countOf (Mk player) board,
         opponentMarks = countOf (Mk (getOpponent player)) board,
         playerTwoInRow = p2,
         opponentTwoInRow = o2,
         playerOneInRow = p1,
         opponentOneInRow = o1,
         centerControl =
           (if cellAt board 4 = Mk player then 1
            else if cellAt board 4 = Mk (getOpponent player) then - 1 else 0),
         playerCorners = length (filter (\<lambda>i. cellAt board i = Mk player) corners),
         opponentCorners = length (filter (\<lambda>i. cellAt board i = Mk (getOpponent player)) corners)\<rparr>)"

text \<open>
  The dataset-format extractor: the loop state is (xAlmostWin, oAlmostWin). The vector is
  [xCount, oCount, xAlmostWin, oAlmostWin, xCenter, xCorners], whatever \<open>player\<close> is.
\<close>

definition almostWinStep :: "board \<Rightarrow> nat \<times> nat \<Rightarrow> nat \<times> nat \<times> nat \<Rightarrow> nat \<times> nat" where
  "almostWinStep board st l =
     (case st of (xAlmostWin, oAlmostWin) \<Rightarrow>
        let xInLine = countOf (Mk MarkX) (lineValues board l);
            oInLine = countOf (Mk MarkO) (lineValues board l);
            emptyInLine = countOf Null (lineValues board l)
        in ((if xInLine = 2 \<and> emptyInLine = 1 then xAlmostWin + 1 else xAlmostWin),
            (if oInLine = 2 \<and> emptyInLine = 1 then oAlmostWin + 1 else oAlmostWin)))"

definition extractDatasetFeatures :: "board \<Rightarrow> mark \<Rightarrow> real list" where
  "extractDatasetFeatures board player =
     (case foldl (almostWinStep board) (0, 0) lines of (xAlmostWin, oAlmostWin) \<Rightarrow>
        [real (countOf (Mk MarkX) board),
         real (countOf (Mk MarkO) board),
         real xAlmostWin,
         real oAlmostWin,
         (if cellAt board 4 = Mk MarkX then 1 else 0),
         real (length (filter (\<lambda>i. cellAt board i = Mk MarkX) corners))])"

text \<open>
  \<open>adjustFeaturesForPlayer\<close> reads the components 0 to 5 of a feature array. Feature
  vectors have six components; for a shorter array JavaScript would read \<open>undefined\<close>,
  which a list of reals cannot hold, so the function is left unspecified there.
\<close>

fun adjustFeaturesForPlayer :: "real list \<Rightarrow> mark \<Rightarrow> real list" where
  "adjustFeaturesForPlayer (f0 # f1 # f2 # f3 # f4 # f5 # others) MarkO =
     [f1, f0, f3, f2,
      (if f4 = 1 then 0 else (if f4 = 0 \<and> f0 + f1 \<ge> 1 then 1 else 0)),
      f5]"
| "adjustFeaturesForPlayer features MarkX = features"

section \<open>Arithmetic on JavaScript numbers\<close>

text \<open>
  Model weights come from a training run or from storage and dataset cells from
  \<open>parseFloat\<close>; no function of the repository checks that such a number is finite. Where
  the code does arithmetic on them, a number is \<open>NaN\<close> (\<open>None\<close>), an infinity or a finite
  real. The result of an operation on finite numbers is the exact result, unless that
  reaches the overflow threshold of double precision, \<open>2^1024 - 2^970\<close>: then it is an
  infinity. An operation on \<open>NaN\<close> is \<open>NaN\<close>, as are \<open>Infinity - Infinity\<close>,
  \<open>0 * Infinity\<close>, \<open>0 / 0\<close> and \<open>Infinity / Infinity\<close>. Rounding, underflow and the
  sign of zero are not represented; a division by zero takes the zero as positive.
\<close>

type_synonym jsfloat = "jsnum option"

definition overflowAt :: real where
  "overflowAt = 2 ^ 1024 - 2 ^ 970"

definition number :: "real \<Rightarrow> jsfloat" where
  "number x =
     (if overflowAt \<le> x then Some PosInf
      else if x \<le> - overflowAt then Some NegInf
      else Some (Fin x))"

fun jsAdd :: "jsfloat \<Rightarrow> jsfloat \<Rightarrow> jsfloat" where
  "jsAdd (Some (Fin a)) (Some (Fin b)) = number (a + b)"
| "jsAdd (Some PosInf) (Some NegInf) = None"
| "jsAdd (Some NegInf) (Some PosInf) = None"
| "jsAdd (Some PosInf) (Some b) = Some PosInf"
| "jsAdd (Some NegInf) (Some b) = Some NegInf"
| "jsAdd (Some (Fin a)) (Some b) = Some b"
| "jsAdd a b = None"

fun jsSub :: "jsfloat \<Rightarrow> jsfloat \<Rightarrow> jsfloat" where
  "jsSub (Some (Fin a)) (Some (Fin b)) = number (a - b)"
| "jsSub (Some PosInf) (Some PosInf) = None"
| "jsSub (Some NegInf) (Some NegInf) = None"
| "jsSub (Some PosInf) (Some b) = Some PosInf"
| "jsSub (Some NegInf) (Some b) = Some NegInf"
| "jsSub (Some (Fin a)) (Some PosInf) = Some NegInf"
| "jsSub (Some (Fin a)) (Some NegInf) = Some PosInf"
| "jsSub a b = None"

fun jsMul :: "jsfloat \<Rightarrow> jsfloat \<Rightarrow> jsfloat" where
  "jsMul (Some (Fin a)) (Some (Fin b)) = number (a * b)"
| "jsMul (Some a) (Some b) =
     (if a = Fin 0 \<or> b = Fin 0 then None
      else if (Fin 0 < a) = (Fin 0 < b) then Some PosInf
      else Some NegInf)"
| "jsMul a b = None"

fun jsDiv :: "jsfloat \<Rightarrow> jsfloat \<Rightarrow> jsfloat" where
  "jsDiv (Some (Fin a)) (Some (Fin b)) =
     (if b = 0 then (if a = 0 then None else if 0 < a then Some PosInf else Some NegInf)
      else number (a / b))"
| "jsDiv (Some (Fin a)) (Some b) = Some (Fin 0)"
| "jsDiv (Some a) (Some (Fin b)) = (if (Fin 0 < a) = (0 \<le> b) then Some PosInf else Some NegInf)"
| "jsDiv a b = None"

text \<open>\<open>Math.min\<close> and \<open>Math.max\<close> of two arguments: \<open>NaN\<close> when either argument is.\<close>

fun mathMin :: "jsfloat \<Rightarrow> jsfloat \<Rightarrow> jsfloat" where
  "mathMin (Some a) (Some b) = Some (min a b)"
| "mathMin a b = None"

fun mathMax :: "jsfloat \<Rightarrow> jsfloat \<Rightarrow> jsfloat" where
  "mathMax (Some a) (Some b) = Some (max a b)"
| "mathMax a b = None"

section \<open>Linear evaluator (mlEval.js)\<close>

text \<open>
  The evaluator that reads the module variable \<open>MODEL_WEIGHTS\<close>; the variable is passed
  as the first argument. \<open>updateMLWeights\<close> stores any array of at least six weights
  there, whatever the weights are, so bias and weights are arbitrary numbers here. The
  features are small counts. The loop adds \<open>features[i] * weights[i]\<close> while \<open>i\<close> is
  inside both arrays.
\<close>

record model_weights =
  bias :: jsfloat
  weights :: "jsfloat list"

fun addWeighted :: "jsfloat \<Rightarrow> real list \<Rightarrow> jsfloat list \<Rightarrow> jsfloat" where
  "addWeighted score (f # fs) (w # ws) = addWeighted (jsAdd score (jsMul (Some (Fin f)) w)) fs ws"
| "addWeighted score _ _ = score"

text \<open>The array \<open>flipped\<close> that \<open>mlEvaluate\<close> builds when it scores for O.\<close>

fun flipped :: "real list \<Rightarrow> real list" where
  "flipped (f0 # f1 # f2 # f3 # f4 # f5 # others) = [f1, f0, f3, f2, f4, f5]"

text \<open>The value of the variable \<open>score\<close> of \<open>mlEvaluate\<close> when its loop has ended.\<close>

definition mlScore :: "model_weights \<Rightarrow> board \<Rightarrow> mark \<Rightarrow> jsfloat" where
  "mlScore MODEL_WEIGHTS board player =
     (let features = extractDatasetFeatures board player
      in if player = MarkX then addWeighted (bias MODEL_WEIGHTS) features (weights MODEL_WEIGHTS)
         else addWeighted (bias MODEL_WEIGHTS) (flipped features) (weights MODEL_WEIGHTS))"

definition mlEvaluate :: "model_weights \<Rightarrow> board \<Rightarrow> mark \<Rightarrow> jsfloat" where
  "mlEvaluate MODEL_WEIGHTS board player =
     (if terminal (isTerminal board) then
        (if winner (isTerminal board) = Won player then Some (Fin 100)
         else if winner (isTerminal board) = Won (getOpponent player) then Some (Fin (- 100))
         else Some (Fin 0))
      else
        let score = mlScore MODEL_WEIGHTS board player
        in mathMax (Some (Fin (- 90))) (mathMin (Some (Fin 90)) score))"

text \<open>
  The other variant of the file, with the constant table \<open>TRAINED_WEIGHTS\<close> over the
  nine features of \<open>extractFeatures\<close>. Its weights are finite constants and its features
  small counts, so its score is a finite number.
\<close>

definition mlEvaluateTrained :: "board \<Rightarrow> mark \<Rightarrow> real" where
  "mlEvaluateTrained board player =
     (if terminal (isTerminal board) then
        (if winner (isTerminal board) = Won player then 100
         else if winner (isTerminal board) = Won (getOpponent player) then - 100
         else 0)
      else
        let features = extractFeatures board player;
            score = 0.5
              + real (playerMarks features) * 2.5
              + real (opponentMarks features) * (- 2.5)
              + real (playerTwoInRow features) * 18.0
              + real (opponentTwoInRow features) * (- 22.0)
              + real (playerOneInRow features) * 4.5
              + real (opponentOneInRow features) * (- 4.5)
              + real_of_int (centerControl features) * 6.0
              + real (playerCorners features) * 3.5
              + real (opponentCorners features) * (- 3.5)
        in max (- 90) (min 90 score))"

section \<open>Model trainer (modelTrainer.js)\<close>

text \<open>
  JavaScript numbers are modelled as real numbers, so rounding is not represented. The
  trainer reads \<open>X[i][j]\<close> for \<open>j < n\<close> and \<open>y[i]\<close> for \<open>i < m\<close>; the dataset loader
  produces rows of equal length and one label per row, and the results below are stated
  for such data. The random initial weights are an explicit input: \<open>random k\<close> is the
  \<open>k\<close>-th value returned by \<open>Math.random\<close>.
\<close>

datatype js_error = TypeError

record train_options =
  learningRate :: "real option"
  epochs :: "nat option"
  regularization :: "real option"

record train_history =
  losses :: "real list"
  accuracies :: "(nat \<times> real) list"

record trained_model =
  trained_weights :: "real list"
  trained_bias :: real
  featureWeights :: "real list"
  history :: train_history

definition predictRow :: "real list \<Rightarrow> real list \<Rightarrow> nat \<Rightarrow> real" where
  "predictRow ws row n =
     foldl (\<lambda>prediction j. prediction + ws ! (j + 1) * row ! j) (ws ! 0) [0..<n]"

definition calculateAccuracy :: "real list list \<Rightarrow> real list \<Rightarrow> real list \<Rightarrow> real" where
  "calculateAccuracy X y ws =
     (let correct =
            foldl (\<lambda>correct i.
                     let prediction = predictRow ws (X ! i) (length (X ! i));
                         predicted = (if prediction \<ge> 0 then 1 else - 1)
                     in if predicted = y ! i then correct + 1 else correct)
                  (0::nat) [0..<length X]
      in (real correct / real (length X)) * 100)"

text \<open>The body of the loop over the samples; the state is (totalLoss, gradients).\<close>

definition sampleStep ::
    "real list list \<Rightarrow> real list \<Rightarrow> real list \<Rightarrow> nat \<Rightarrow> real \<times> real list \<Rightarrow> nat \<Rightarrow> real \<times> real list" where
  "sampleStep X y ws n st i =
     (case st of (totalLoss, gradients) \<Rightarrow>
        let prediction = predictRow ws (X ! i) n;
            error = prediction - y ! i
        in (totalLoss + error * error,
            foldl (\<lambda>g j. g[j + 1 := g ! (j + 1) + error * X ! i ! j])
                  (gradients[0 := gradients ! 0 + error]) [0..<n]))"

text \<open>The loop that updates the weights in place, the bias (index 0) without the penalty.\<close>

definition updateWeights :: "real \<Rightarrow> real \<Rightarrow> nat \<Rightarrow> real list \<Rightarrow> real list \<Rightarrow> real list" where
  "updateWeights lr reg m gradients ws =
     foldl (\<lambda>w j.
              let gradient = gradients ! j / real m;
                  regTerm = (if j > 0 then reg * w ! j else 0)
              in w[j := w ! j - lr * (gradient + regTerm)])
           ws [0..<length ws]"

definition epochStep ::
    "real list list \<Rightarrow> real list \<Rightarrow> real \<Rightarrow> real \<Rightarrow> real list \<times> train_history \<Rightarrow> nat
       \<Rightarrow> real list \<times> train_history" where
  "epochStep X y lr reg st epoch =
     (case st of (ws, h) \<Rightarrow>
        let m = length X;
            n = length (X ! 0);
            (totalLoss, gradients) = foldl (sampleStep X y ws n) (0, replicate (n + 1) 0) [0..<m];
            ws' = updateWeights lr reg m gradients ws;
            loss = totalLoss / real m;
            h' = h\<lparr>losses := losses h @ [loss]\<rparr>
        in (ws',
            if epoch mod 50 = 0
            then h'\<lparr>accuracies := accuracies h' @ [(epoch, calculateAccuracy X y ws')]\<rparr>
            else h'))"

definition trainLinearModel ::
    "(nat \<Rightarrow> real) \<Rightarrow> real list list \<Rightarrow> real list \<Rightarrow> train_options \<Rightarrow> js_error + trained_model" where
  "trainLinearModel random X y options =
     (case X of
        [] \<Rightarrow> Inl TypeError
      | row0 # _ \<Rightarrow>
          let lr = (case learningRate options of None \<Rightarrow> 0.01 | Some v \<Rightarrow> v);
              ep = (case epochs options of None \<Rightarrow> 1000 | Some v \<Rightarrow> v);
              reg = (case regularization options of None \<Rightarrow> 0.001 | Some v \<Rightarrow> v);
              n = length row0;
              ws0 = map (\<lambda>k. random k * 0.01) [0..<n + 1];
              (ws, h) = foldl (epochStep X y lr reg) (ws0, \<lparr>losses = [], accuracies = []\<rparr>) [0..<ep]
          in Inr \<lparr>trained_weights = ws, trained_bias = ws ! 0, featureWeights = drop 1 ws,
                   history = h\<rparr>)"

text \<open>
  The update the specification describes, in closed form: with the error of sample \<open>i\<close>
  being the linear prediction minus the label, the bias moves by the mean error and weight
  \<open>j\<close> by the mean of error times feature plus the L2 term.
\<close>

definition sampleError :: "real list list \<Rightarrow> real list \<Rightarrow> real list \<Rightarrow> nat \<Rightarrow> real" where
  "sampleError X y ws i =
     (ws ! 0 + (\<Sum>j = 0..<length (X ! 0). ws ! (j + 1) * X ! i ! j)) - y ! i"

definition gradientDescentStep ::
    "real list list \<Rightarrow> real list \<Rightarrow> real \<Rightarrow> real \<Rightarrow> real list \<Rightarrow> real list" where
  "gradientDescentStep X y lr l2Lambda ws =
     (ws ! 0 - lr * ((\<Sum>i = 0..<length X. sampleError X y ws i) / real (length X)))
     # map (\<lambda>j. ws ! (j + 1)
                 - lr * ((\<Sum>i = 0..<length X. sampleError X y ws i * X ! i ! j) / real (length X)
                         + l2Lambda * ws ! (j + 1)))
           [0..<length (X ! 0)]"

section \<open>Dataset loader: normalisation (datasetLoader.js)\<close>

text \<open>
  \<open>normalizeFeatures\<close> starts from arrays filled with \<open>Infinity\<close> and \<open>-Infinity\<close>. The
  cells of the matrix are the results of \<open>parseFloat\<close>: arbitrary numbers. Reading an array
  beyond its end gives \<open>undefined\<close>, which the arithmetic turns into \<open>NaN\<close>; both are
  \<open>None\<close>.
\<close>

definition readAt :: "jsfloat list \<Rightarrow> nat \<Rightarrow> jsfloat" where
  "readAt xs i = (if i < length xs then xs ! i else None)"

definition storeAt :: "jsfloat list \<Rightarrow> nat \<Rightarrow> jsfloat \<Rightarrow> jsfloat list" where
  "storeAt xs i v =
     (if i < length xs then xs[i := v] else xs @ replicate (i - length xs) None @ [v])"

definition minMaxCell ::
    "jsfloat list \<times> jsfloat list \<Rightarrow> jsfloat \<times> nat \<Rightarrow> jsfloat list \<times> jsfloat list" where
  "minMaxCell st vi =
     (case st of (mins, maxs) \<Rightarrow> case vi of (v, i) \<Rightarrow>
        (storeAt mins i (mathMin (readAt mins i) v), storeAt maxs i (mathMax (readAt maxs i) v)))"

definition normalizeValue :: "jsfloat list \<Rightarrow> jsfloat list \<Rightarrow> jsfloat \<Rightarrow> nat \<Rightarrow> jsfloat" where
  "normalizeValue mins maxs v i =
     (let range = jsSub (readAt maxs i) (readAt mins i)
      in if range = Some (Fin 0) then Some (Fin 0) else jsDiv (jsSub v (readAt mins i)) range)"

record normalized_features =
  normalized :: "jsfloat list list"
  mins :: "jsfloat list"
  maxs :: "jsfloat list"

definition normalizeFeatures :: "jsfloat list list \<Rightarrow> js_error + normalized_features" where
  "normalizeFeatures fs =
     (case fs of
        [] \<Rightarrow> Inl TypeError
      | row0 # _ \<Rightarrow>
          let featureCount = length row0;
              (mins, maxs) =
                foldl (\<lambda>st sample. foldl minMaxCell st (zip sample [0..<length sample]))
                      (replicate featureCount (Some PosInf), replicate featureCount (Some NegInf))
                      fs
          in Inr \<lparr>normalized =
                     map (\<lambda>sample. map (\<lambda>(v, i). normalizeValue mins maxs v i)
                                        (zip sample [0..<length sample]))
                         fs,
                   mins = mins, maxs = maxs\<rparr>)"

text \<open>
  The reconstruction that the specification applies to a normalised value \<open>x\<close> of column
  \<open>j\<close>: \<open>x * (maxs[j] - mins[j]) + mins[j]\<close>, in the same arithmetic; \<open>lo\<close> and \<open>hi\<close>
  are the arrays \<open>mins\<close> and \<open>maxs\<close>.
\<close>

definition reconstructValue :: "jsfloat list \<Rightarrow> jsfloat list \<Rightarrow> jsfloat \<Rightarrow> nat \<Rightarrow> jsfloat" where
  "reconstructValue lo hi x j = jsAdd (jsMul x (jsSub (readAt hi j) (readAt lo j))) (readAt lo j)"

section \<open>Auxiliary notions for the proofs\<close>

text \<open>
  The relation between the exact value \<open>v\<close> of a node and the result \<open>r\<close> of a search
  of that node with window \<open>(a, b)\<close>: above \<open>a\<close> the result is a lower bound, below
  \<open>b\<close> an upper bound, so inside the window it is exact.
\<close>

definition failSoft :: "jsnum \<Rightarrow> jsnum \<Rightarrow> jsnum \<Rightarrow> jsnum \<Rightarrow> bool" where
  "failSoft a b v r = ((a < r \<longrightarrow> r \<le> v) \<and> (r < b \<longrightarrow> v \<le> r))"

text \<open>The number of empty cells of a board.\<close>

definition nulls :: "board \<Rightarrow> nat" where
  "nulls b = length (filter (\<lambda>c. c = Null) b)"

text \<open>Three cells hold the same mark; a cell is not empty. Both evaluate in one step.\<close>

fun row3 :: "cell \<Rightarrow> cell \<Rightarrow> cell \<Rightarrow> bool" where
  "row3 (Mk p) (Mk q) (Mk r) = (p = q \<and> p = r)"
| "row3 _ _ _ = False"

fun notNull :: "cell \<Rightarrow> bool" where
  "notNull Null = False"
| "notNull _ = True"

text \<open>
  The state of the loop of \<open>normalizeFeatures\<close> over the samples after the rows \<open>seen\<close>:
  untouched bounds before the first row, afterwards the least and greatest value of each of
  the \<open>n\<close> columns.
\<close>

definition colInv :: "nat \<Rightarrow> real list list \<Rightarrow> jsfloat list \<times> jsfloat list \<Rightarrow> bool" where
  "colInv n seen st = (case st of (lo, hi) \<Rightarrow>
     length lo = n \<and> length hi = n \<and>
     (\<forall>j<n. if seen = [] then lo ! j = Some PosInf \<and> hi ! j = Some NegInf
             else \<exists>mn mx. lo ! j = Some (Fin mn) \<and> hi ! j = Some (Fin mx) \<and>
                    (\<forall>row\<in>set seen. mn \<le> row ! j \<and> row ! j \<le> mx) \<and>
                    (\<exists>row\<in>set seen. row ! j = mn) \<and> (\<exists>row\<in>set seen. row ! j = mx)))"

section \<open>Properties of the rules engine\<close>

declare alphaBetaSearch.simps [simp del] minimaxSearch.simps [simp del] cannotLose.simps [simp del]

lemma getLegalMoves_eq: "getLegalMoves board = filter (\<lambda>i. board ! i = Null) [0..<length board]"
proof (induction board rule: rev_induct)
  case Nil
  show ?case by (simp add: getLegalMoves_def)
next
  case (snoc x xs)
  have "filter (\<lambda>i. (xs @ [x]) ! i = Null) [0..<length xs] = filter (\<lambda>i. xs ! i = Null) [0..<length xs]"
    by (rule filter_cong) (auto simp: nth_append)
  with snoc show ?case by (simp add: getLegalMoves_def enumerate_append_eq)
qed

lemma set_getLegalMoves: "set (getLegalMoves board) = {i. i < length board \<and> board ! i = Null}"
  by (auto simp: getLegalMoves_eq)

lemma cellAt_Null_iff: "cellAt board i = Null \<longleftrightarrow> i \<in> set (getLegalMoves board)"
  by (auto simp: set_getLegalMoves cellAt_def)

lemma nulls_makeMove:
  assumes "m \<in> set (getLegalMoves board)"
  shows "Suc (nulls (makeMove board m p)) = nulls board"
proof -
  from assms have m: "m < length board" "board ! m = Null" by (auto simp: set_getLegalMoves)
  define t where "t = take m board"
  define d where "d = drop (Suc m) board"
  have b: "board = t @ Null # d"
    using m id_take_nth_drop[of m board] by (simp add: t_def d_def)
  have len: "length t = m" using m by (simp add: t_def)
  have "makeMove board m p = t @ Mk p # d"
    unfolding makeMove_def using m len by (subst (2) b) (simp add: list_update_append)
  then show ?thesis by (simp add: nulls_def b)
qed

lemma not_full_legal: "\<not> isBoardFull board \<Longrightarrow> getLegalMoves board \<noteq> []"
proof -
  assume "\<not> isBoardFull board"
  then obtain c where "c \<in> set board" "c = Null" by (auto simp: isBoardFull_def list_all_iff)
  then obtain i where "i < length board" "board ! i = Null" by (auto simp: in_set_conv_nth)
  then have "i \<in> set (getLegalMoves board)" by (simp add: set_getLegalMoves)
  then show ?thesis by auto
qed

lemma not_full_nulls: "\<not> isBoardFull board \<Longrightarrow> 0 < nulls board"
  by (auto simp: isBoardFull_def list_all_iff nulls_def filter_empty_conv)

lemma terminal_iff: "terminal (isTerminal board) \<longleftrightarrow> checkWinner board \<noteq> None \<or> isBoardFull board"
  by (auto simp: isTerminal_def split: option.splits)

lemma winner_eq:
  "winner (isTerminal board) =
     (case checkWinner board of Some wl \<Rightarrow> Won (fst wl)
      | None \<Rightarrow> if isBoardFull board then Draw else NoWinner)"
  by (auto simp: isTerminal_def split: option.splits)

lemma getOpponent_neq: "getOpponent p \<noteq> p" "w \<noteq> getOpponent p \<longleftrightarrow> w = p"
  by (cases p; cases w; simp add: getOpponent_def)+

lemma winner_cases:
  "terminal (isTerminal board) \<Longrightarrow>
   winner (isTerminal board) = Won ai \<or> winner (isTerminal board) = Won (getOpponent ai)
   \<or> winner (isTerminal board) = Draw"
  by (cases ai; cases "checkWinner board")
     (auto simp: isTerminal_def getOpponent_def split: option.splits if_splits intro: mark.exhaust)

section \<open>Pruning does not change the value\<close>

text \<open>
  One iteration of the loop over the moves keeps the fail-soft relation between the exact
  value of the remaining moves and the result of the loop, whether it cuts off or goes on;
  the four order facts below are the two cases for each of the two loops.
\<close>

lemma failSoft_full: "failSoft NegInf PosInf v r \<Longrightarrow> r = v"
  unfolding failSoft_def
  by (cases r; cases v) (auto simp: less_jsnum_def)

lemma maxStep_cut:
  fixes a b v e me T :: "'a::linorder"
  assumes "(a < e \<longrightarrow> e \<le> v) \<and> (e < b \<longrightarrow> v \<le> e)" "a < b" "me \<le> a" "b \<le> max a e"
  shows "(a < max me e \<longrightarrow> max me e \<le> max v T) \<and> (max me e < b \<longrightarrow> max v T \<le> max me e) \<and> me \<le> max me e"
  using assms by (auto simp: max_def split: if_splits)

lemma maxStep_go:
  fixes a b v e me T r :: "'a::linorder"
  assumes "(a < e \<longrightarrow> e \<le> v) \<and> (e < b \<longrightarrow> v \<le> e)" "a < b" "me \<le> a"
    and "(max a e < r \<longrightarrow> r \<le> T) \<and> (r < b \<longrightarrow> T \<le> r) \<and> max me e \<le> r"
  shows "(a < r \<longrightarrow> r \<le> max v T) \<and> (r < b \<longrightarrow> max v T \<le> r) \<and> me \<le> r"
  using assms by (auto simp: max_def split: if_splits)

lemma minStep_cut:
  fixes a b v e me T :: "'a::linorder"
  assumes "(a < e \<longrightarrow> e \<le> v) \<and> (e < b \<longrightarrow> v \<le> e)" "a < b" "b \<le> me" "min b e \<le> a"
  shows "(a < min me e \<longrightarrow> min me e \<le> min v T) \<and> (min me e < b \<longrightarrow> min v T \<le> min me e) \<and> min me e \<le> me"
  using assms by (auto simp: min_def split: if_splits)

lemma minStep_go:
  fixes a b v e me T r :: "'a::linorder"
  assumes "(a < e \<longrightarrow> e \<le> v) \<and> (e < b \<longrightarrow> v \<le> e)" "a < b" "b \<le> me"
    and "(a < r \<longrightarrow> r \<le> T) \<and> (r < min b e \<longrightarrow> T \<le> r) \<and> r \<le> min me e"
  shows "(a < r \<longrightarrow> r \<le> min v T) \<and> (r < b \<longrightarrow> min v T \<le> r) \<and> r \<le> me"
  using assms by (auto simp: min_def split: if_splits)

lemma ab_failSoft:
  "alpha < beta \<Longrightarrow>
     failSoft alpha beta (minimaxSearch board depth isMaximizing aiPlayer ev maxDepth)
       (alphaBetaSearch board depth alpha beta isMaximizing aiPlayer ev maxDepth)"
  "alpha < beta \<Longrightarrow> maxEval \<le> alpha \<Longrightarrow>
     (let T = foldr max (map (\<lambda>move. minimaxSearch (makeMove board move aiPlayer) (depth + 1) False
                         aiPlayer ev maxDepth) moves) NegInf;
          r = maxLoop board depth alpha beta aiPlayer ev maxDepth moves maxEval
      in (alpha < r \<longrightarrow> r \<le> T) \<and> (r < beta \<longrightarrow> T \<le> r) \<and> maxEval \<le> r)"
  "alpha < beta \<Longrightarrow> beta \<le> minEval \<Longrightarrow>
     (let T = foldr min (map (\<lambda>move. minimaxSearch (makeMove board move (getOpponent aiPlayer)) (depth + 1) True
                         aiPlayer ev maxDepth) moves) PosInf;
          r = minLoop board depth alpha beta aiPlayer ev maxDepth moves minEval
      in (alpha < r \<longrightarrow> r \<le> T) \<and> (r < beta \<longrightarrow> T \<le> r) \<and> r \<le> minEval)"
proof (induction board depth alpha beta isMaximizing aiPlayer ev maxDepth
         and board depth alpha beta aiPlayer ev maxDepth moves maxEval
         and board depth alpha beta aiPlayer ev maxDepth moves minEval
       rule: alphaBetaSearch_maxLoop_minLoop.induct)
  case (1 board depth alpha beta isMaximizing aiPlayer ev maxDepth)
  show ?case
  proof (cases "terminal (isTerminal board) \<or> depth \<ge> maxDepth")
    case True
    then show ?thesis
      by (auto simp: alphaBetaSearch.simps[of board] minimaxSearch.simps[of board] failSoft_def)
  next
    case False
    show ?thesis
    proof (cases isMaximizing)
      case True
      have "NegInf \<le> alpha" by simp
      from "1.IH"(1)[OF _ _ True "1.prems" this] False True
      show ?thesis
        by (simp add: alphaBetaSearch.simps[of board] minimaxSearch.simps[of board] failSoft_def Let_def)
    next
      case F: False
      have "beta \<le> PosInf" by (cases beta) simp_all
      from "1.IH"(2)[OF _ _ F "1.prems" this] False F
      show ?thesis
        by (simp add: alphaBetaSearch.simps[of board] minimaxSearch.simps[of board] failSoft_def Let_def)
    qed
  qed
next
  case (2 board depth alpha beta aiPlayer ev maxDepth maxEval)
  then show ?case by (auto simp: Let_def)
next
  case (3 board depth alpha beta aiPlayer ev maxDepth move rest maxEval)
  define e where "e = alphaBetaSearch (makeMove board move aiPlayer) (depth + 1) alpha beta False aiPlayer ev maxDepth"
  define v where "v = minimaxSearch (makeMove board move aiPlayer) (depth + 1) False aiPlayer ev maxDepth"
  define T where "T = foldr max (map (\<lambda>move. minimaxSearch (makeMove board move aiPlayer) (depth + 1) False
                         aiPlayer ev maxDepth) rest) NegInf"
  have fs: "(alpha < e \<longrightarrow> e \<le> v) \<and> (e < beta \<longrightarrow> v \<le> e)"
    using "3.IH"(1)[OF "3.prems"(1)] by (simp add: e_def v_def failSoft_def)
  have lhs: "maxLoop board depth alpha beta aiPlayer ev maxDepth (move # rest) maxEval =
      (if beta \<le> max alpha e then max maxEval e
       else maxLoop board depth (max alpha e) beta aiPlayer ev maxDepth rest (max maxEval e))"
    by (simp add: e_def Let_def)
  have Teq: "foldr max (map (\<lambda>move. minimaxSearch (makeMove board move aiPlayer) (depth + 1) False
                         aiPlayer ev maxDepth) (move # rest)) NegInf = max v T"
    by (simp add: v_def T_def)
  show ?case
  proof (cases "beta \<le> max alpha e")
    case True
    show ?thesis unfolding Let_def lhs Teq if_P[OF True]
      by (rule maxStep_cut[OF fs "3.prems" True])
  next
    case False
    then have lt: "max alpha e < beta" by (simp add: not_le)
    have le: "max maxEval e \<le> max alpha e" using "3.prems"(2) by (auto simp: max_def)
    note ih = "3.IH"(2)[OF e_def False lt le, unfolded Let_def, folded T_def]
    show ?thesis unfolding Let_def lhs Teq if_not_P[OF False]
      by (rule maxStep_go[OF fs "3.prems" ih])
  qed
next
  case (4 board depth alpha beta aiPlayer ev maxDepth minEval)
  then show ?case by (cases minEval) (auto simp: Let_def)
next
  case (5 board depth alpha beta aiPlayer ev maxDepth move rest minEval)
  define e where "e = alphaBetaSearch (makeMove board move (getOpponent aiPlayer)) (depth + 1) alpha beta True aiPlayer ev maxDepth"
  define v where "v = minimaxSearch (makeMove board move (getOpponent aiPlayer)) (depth + 1) True aiPlayer ev maxDepth"
  define T where "T = foldr min (map (\<lambda>move. minimaxSearch (makeMove board move (getOpponent aiPlayer)) (depth + 1) True
                         aiPlayer ev maxDepth) rest) PosInf"
  have fs: "(alpha < e \<longrightarrow> e \<le> v) \<and> (e < beta \<longrightarrow> v \<le> e)"
    using "5.IH"(1)[OF "5.prems"(1)] by (simp add: e_def v_def failSoft_def)
  have lhs: "minLoop board depth alpha beta aiPlayer ev maxDepth (move # rest) minEval =
      (if min beta e \<le> alpha then min minEval e
       else minLoop board depth alpha (min beta e) aiPlayer ev maxDepth rest (min minEval e))"
    by (simp add: e_def Let_def)
  have Teq: "foldr min (map (\<lambda>move. minimaxSearch (makeMove board move (getOpponent aiPlayer)) (depth + 1) True
                         aiPlayer ev maxDepth) (move # rest)) PosInf = min v T"
    by (simp add: v_def T_def)
  show ?case
  proof (cases "min beta e \<le> alpha")
    case True
    show ?thesis unfolding Let_def lhs Teq if_P[OF True]
      by (rule minStep_cut[OF fs "5.prems" True])
  next
    case False
    then have lt: "alpha < min beta e" by (simp add: not_le)
    have le: "min beta e \<le> min minEval e" using "5.prems"(2) by (auto simp: min_def)
    note ih = "5.IH"(2)[OF e_def False lt le, unfolded Let_def, folded T_def]
    show ?thesis unfolding Let_def lhs Teq if_not_P[OF False]
      by (rule minStep_go[OF fs "5.prems" ih])
  qed
qed

lemma ab_eq_minimax:
  "alphaBetaSearch board depth NegInf PosInf t ai ev md = minimaxSearch board depth t ai ev md"
proof -
  have "NegInf < PosInf" by (simp add: less_jsnum_def)
  from ab_failSoft(1)[OF this] show ?thesis by (rule failSoft_full)
qed

lemma findBestMoveLoop_eq_minimax:
  "findBestMoveLoop board ai ev md ms acc = findBestMoveMinimaxLoop board ai ev md ms acc"
  by (induction ms arbitrary: acc) (simp_all add: ab_eq_minimax Let_def)

lemma findBestMoveLoop_evals:
  "moveEvaluations (findBestMoveLoop board ai ev md ms acc) =
     moveEvaluations acc @
     map (\<lambda>m. (m, alphaBetaSearch (makeMove board m ai) 0 NegInf PosInf False ai ev md)) ms"
  by (induction ms arbitrary: acc) (simp_all add: Let_def)

lemma findBestMoveLoop_best:
  fixes board ai ev md
  defines "f \<equiv> \<lambda>m. alphaBetaSearch (makeMove board m ai) 0 NegInf PosInf False ai ev md"
  shows "(bestMove (findBestMoveLoop board ai ev md ms acc) = bestMove acc \<and>
          bestValue (findBestMoveLoop board ai ev md ms acc) = bestValue acc \<and>
          (\<forall>x\<in>set ms. f x \<le> bestValue acc)) \<or>
         (\<exists>pre m post. ms = pre @ m # post \<and>
            bestMove (findBestMoveLoop board ai ev md ms acc) = Some m \<and>
            bestValue (findBestMoveLoop board ai ev md ms acc) = f m \<and>
            bestValue acc < f m \<and>
            (\<forall>x\<in>set pre. f x < f m) \<and> (\<forall>x\<in>set post. f x \<le> f m))"
proof (induction ms arbitrary: acc)
  case Nil
  show ?case by simp
next
  case (Cons a ms)
  let ?pushed = "moveEvaluations acc @ [(a, f a)]"
  show ?case
  proof (cases "bestValue acc < f a")
    case True
    let ?acc' = "\<lparr>bestMove = Some a, bestValue = f a, moveEvaluations = ?pushed\<rparr>"
    have step: "findBestMoveLoop board ai ev md (a # ms) acc = findBestMoveLoop board ai ev md ms ?acc'"
      using True by (simp add: f_def Let_def)
    from Cons.IH[of ?acc'] show ?thesis
    proof
      assume h: "bestMove (findBestMoveLoop board ai ev md ms ?acc') = bestMove ?acc' \<and>
          bestValue (findBestMoveLoop board ai ev md ms ?acc') = bestValue ?acc' \<and>
          (\<forall>x\<in>set ms. f x \<le> bestValue ?acc')"
      have "a # ms = [] @ a # ms" by simp
      with h True show ?thesis unfolding step by (intro disjI2 exI[of _ "[]"] exI[of _ a] exI[of _ ms]) simp
    next
      assume "\<exists>pre m post. ms = pre @ m # post \<and>
            bestMove (findBestMoveLoop board ai ev md ms ?acc') = Some m \<and>
            bestValue (findBestMoveLoop board ai ev md ms ?acc') = f m \<and>
            bestValue ?acc' < f m \<and>
            (\<forall>x\<in>set pre. f x < f m) \<and> (\<forall>x\<in>set post. f x \<le> f m)"
      then obtain pre m post where h: "ms = pre @ m # post"
            "bestMove (findBestMoveLoop board ai ev md ms ?acc') = Some m"
            "bestValue (findBestMoveLoop board ai ev md ms ?acc') = f m"
            "f a < f m" "\<forall>x\<in>set pre. f x < f m" "\<forall>x\<in>set post. f x \<le> f m"
        by auto
      from h True show ?thesis unfolding step
        by (intro disjI2 exI[of _ "a # pre"] exI[of _ m] exI[of _ post]) auto
    qed
  next
    case False
    let ?acc' = "acc\<lparr>moveEvaluations := ?pushed\<rparr>"
    have step: "findBestMoveLoop board ai ev md (a # ms) acc = findBestMoveLoop board ai ev md ms ?acc'"
      using False by (simp add: f_def Let_def)
    from Cons.IH[of ?acc'] show ?thesis
    proof
      assume h: "bestMove (findBestMoveLoop board ai ev md ms ?acc') = bestMove ?acc' \<and>
          bestValue (findBestMoveLoop board ai ev md ms ?acc') = bestValue ?acc' \<and>
          (\<forall>x\<in>set ms. f x \<le> bestValue ?acc')"
      with False show ?thesis unfolding step by (intro disjI1) (auto simp: not_less)
    next
      assume "\<exists>pre m post. ms = pre @ m # post \<and>
            bestMove (findBestMoveLoop board ai ev md ms ?acc') = Some m \<and>
            bestValue (findBestMoveLoop board ai ev md ms ?acc') = f m \<and>
            bestValue ?acc' < f m \<and>
            (\<forall>x\<in>set pre. f x < f m) \<and> (\<forall>x\<in>set post. f x \<le> f m)"
      then obtain pre m post where h: "ms = pre @ m # post"
            "bestMove (findBestMoveLoop board ai ev md ms ?acc') = Some m"
            "bestValue (findBestMoveLoop board ai ev md ms ?acc') = f m"
            "bestValue acc < f m" "\<forall>x\<in>set pre. f x < f m" "\<forall>x\<in>set post. f x \<le> f m"
        by auto
      from h False show ?thesis unfolding step
        by (intro disjI2 exI[of _ "a # pre"] exI[of _ m] exI[of _ post]) (auto simp: not_less)
    qed
  qed
qed

lemma findBestMove_Some:
  assumes "bestMove (findBestMove board ai ev md) = Some m"
  shows "m \<in> set (getLegalMoves board) \<and>
         bestValue (findBestMove board ai ev md) = minimaxSearch (makeMove board m ai) 0 False ai ev md \<and>
         (\<forall>x\<in>set (getLegalMoves board).
            minimaxSearch (makeMove board x ai) 0 False ai ev md
              \<le> minimaxSearch (makeMove board m ai) 0 False ai ev md)"
  using assms
    findBestMoveLoop_best[of board ai ev md "getLegalMoves board"
      "\<lparr>bestMove = None, bestValue = NegInf, moveEvaluations = []\<rparr>"]
  unfolding findBestMove_def[symmetric] ab_eq_minimax
  by (auto simp: less_imp_le)

lemma Fin0_le_foldr_max: "Fin 0 \<le> foldr max vs NegInf \<longleftrightarrow> (\<exists>v\<in>set vs. Fin 0 \<le> v)"
  by (induction vs) (auto simp: le_max_iff_disj)

lemma Fin0_le_foldr_min: "Fin 0 \<le> foldr min vs PosInf \<longleftrightarrow> (\<forall>v\<in>set vs. Fin 0 \<le> v)"
  by (induction vs) auto

lemma minimax_terminal:
  "terminal (isTerminal board) \<Longrightarrow>
   minimaxSearch board depth t ai ev md =
     (if winner (isTerminal board) = Won ai then Fin (100 - real depth)
      else if winner (isTerminal board) = Won (getOpponent ai) then Fin (real depth - 100)
      else Fin 0)"
  by (simp add: minimaxSearch.simps[of board])

lemma minimax_max:
  "\<not> terminal (isTerminal board) \<Longrightarrow> depth < md \<Longrightarrow>
   minimaxSearch board depth True ai ev md =
     foldr max (map (\<lambda>move. minimaxSearch (makeMove board move ai) (depth + 1) False ai ev md)
                 (getLegalMoves board)) NegInf"
  by (simp add: minimaxSearch.simps[of board])

lemma minimax_min:
  "\<not> terminal (isTerminal board) \<Longrightarrow> depth < md \<Longrightarrow>
   minimaxSearch board depth False ai ev md =
     foldr min (map (\<lambda>move. minimaxSearch (makeMove board move (getOpponent ai)) (depth + 1) True ai ev md)
                 (getLegalMoves board)) PosInf"
  by (simp add: minimaxSearch.simps[of board])

lemma not_terminal_nulls: "\<not> terminal (isTerminal board) \<Longrightarrow> 0 < nulls board"
  by (simp add: terminal_iff not_full_nulls)

lemma sorted_getLegalMoves: "sorted_wrt (<) (getLegalMoves board)"
  unfolding getLegalMoves_eq by (rule sorted_wrt_filter) (simp add: sorted_wrt_upt)

lemma distinct_getLegalMoves: "distinct (getLegalMoves board)"
  unfolding getLegalMoves_eq by simp

lemma max_Fin: "max (Fin x) (Fin y) = Fin (max x y)"
  by (simp add: max_def)

lemma min_Fin: "min (Fin x) (Fin y) = Fin (min x y)"
  by (simp add: min_def)

lemma foldr_max_Fin:
  "vs \<noteq> [] \<Longrightarrow> \<forall>v\<in>set vs. \<exists>x. v = Fin x \<Longrightarrow> \<exists>x. foldr max vs NegInf = Fin x"
proof (induction vs)
  case Nil
  then show ?case by simp
next
  case (Cons v vs)
  then obtain x where x: "v = Fin x" by auto
  show ?case
  proof (cases "vs = []")
    case True
    with x show ?thesis by (simp add: max_def)
  next
    case False
    with Cons obtain y where "foldr max vs NegInf = Fin y" by auto
    with x show ?thesis by (simp add: max_Fin)
  qed
qed

lemma foldr_min_Fin:
  "vs \<noteq> [] \<Longrightarrow> \<forall>v\<in>set vs. \<exists>x. v = Fin x \<Longrightarrow> \<exists>x. foldr min vs PosInf = Fin x"
proof (induction vs)
  case Nil
  then show ?case by simp
next
  case (Cons v vs)
  then obtain x where x: "v = Fin x" by auto
  show ?case
  proof (cases "vs = []")
    case True
    with x show ?thesis by (simp add: min_def)
  next
    case False
    with Cons obtain y where "foldr min vs PosInf = Fin y" by auto
    with x show ?thesis by (simp add: min_Fin)
  qed
qed

lemma not_terminal_legal: "\<not> terminal (isTerminal board) \<Longrightarrow> getLegalMoves board \<noteq> []"
  by (simp add: terminal_iff not_full_legal)

lemma minimax_finite:
  "(\<forall>b p. \<exists>x. ev b p = Fin x) \<Longrightarrow> \<exists>x. minimaxSearch board depth t ai ev md = Fin x"
proof (induction board depth t ai ev md rule: minimaxSearch.induct)
  case (1 board depth t ai ev md)
  show ?case
  proof (cases "terminal (isTerminal board)")
    case True
    then show ?thesis by (simp add: minimax_terminal)
  next
    case nt: False
    show ?thesis
    proof (cases "md \<le> depth")
      case True
      with nt "1.prems" show ?thesis by (simp add: minimaxSearch.simps[of board])
    next
      case False
      then have lt: "depth < md" by simp
      from nt have ne: "getLegalMoves board \<noteq> []" by (rule not_terminal_legal)
      show ?thesis
      proof (cases t)
        case True
        have "\<exists>x. foldr max (map (\<lambda>move. minimaxSearch (makeMove board move ai) (depth + 1) False ai ev md)
                 (getLegalMoves board)) NegInf = Fin x"
          using ne "1.IH"(1)[OF nt False True] "1.prems" by (intro foldr_max_Fin) auto
        then show ?thesis using nt lt True by (simp add: minimax_max)
      next
        case F: False
        have "\<exists>x. foldr min (map (\<lambda>move. minimaxSearch (makeMove board move (getOpponent ai)) (depth + 1) True ai ev md)
                 (getLegalMoves board)) PosInf = Fin x"
          using ne "1.IH"(2)[OF nt False F] "1.prems" by (intro foldr_min_Fin) auto
        then show ?thesis using nt lt F by (simp add: minimax_min)
      qed
    qed
  qed
qed

lemma moveValue_finite:
  "(\<forall>b p. \<exists>x. ev b p = Fin x) \<Longrightarrow> \<exists>x. moveValue board ai ev md m = Fin x"
  by (simp add: moveValue_def ab_eq_minimax minimax_finite)

lemma findBestMove_bestValue:
  "bestValue (findBestMoveLoop board ai ev md ms acc) =
     foldr max (map (moveValue board ai ev md) ms) (bestValue acc)"
proof (induction ms arbitrary: acc)
  case Nil
  show ?case by simp
next
  case (Cons a ms)
  define f where "f = moveValue board ai ev md"
  have feq: "alphaBetaSearch (makeMove board m ai) 0 NegInf PosInf False ai ev md = f m" for m
    by (simp add: f_def moveValue_def)
  have fold: "foldr max vs (max x y) = max x (foldr max vs y)" for vs and x y :: jsnum
    by (induction vs) (auto simp: max.left_commute)
  have "bestValue (findBestMoveLoop board ai ev md (a # ms) acc) =
        foldr max (map f ms) (max (f a) (bestValue acc))"
  proof (cases "bestValue acc < f a")
    case True
    then have "max (f a) (bestValue acc) = f a" by (simp add: max_absorb1 less_imp_le)
    with True show ?thesis by (simp add: Cons.IH Let_def feq f_def[symmetric])
  next
    case False
    then have "max (f a) (bestValue acc) = bestValue acc" by (simp add: max_absorb2 not_less)
    with False show ?thesis by (simp add: Cons.IH Let_def feq f_def[symmetric])
  qed
  then show ?case by (simp add: fold f_def)
qed

lemma ab_evaluator_ext:
  assumes agree: "\<forall>b. \<not> terminal (isTerminal b) \<longrightarrow> ev b ai = ev' b ai"
  shows "alphaBetaSearch board depth alpha beta t ai ev md = alphaBetaSearch board depth alpha beta t ai ev' md"
    and "maxLoop board depth alpha beta ai ev md ms me = maxLoop board depth alpha beta ai ev' md ms me"
    and "minLoop board depth alpha beta ai ev md ms me = minLoop board depth alpha beta ai ev' md ms me"
  using agree
proof (induction board depth alpha beta t ai ev md
         and board depth alpha beta ai ev md ms me
         and board depth alpha beta ai ev md ms me
       rule: alphaBetaSearch_maxLoop_minLoop.induct)
  case (1 board depth alpha beta isMaximizing aiPlayer ev maxDepth)
  show ?case
  proof (cases "terminal (isTerminal board) \<or> maxDepth \<le> depth")
    case True
    then show ?thesis using "1.prems"
      by (auto simp: alphaBetaSearch.simps[of board])
  next
    case False
    then show ?thesis using "1.IH" "1.prems"
      by (cases isMaximizing) (simp_all add: alphaBetaSearch.simps[of board])
  qed
next
  case (2 board depth alpha beta aiPlayer ev maxDepth maxEval)
  show ?case by simp
next
  case (3 board depth alpha beta aiPlayer ev maxDepth move rest maxEval)
  have e: "alphaBetaSearch (makeMove board move aiPlayer) (depth + 1) alpha beta False aiPlayer ev maxDepth
         = alphaBetaSearch (makeMove board move aiPlayer) (depth + 1) alpha beta False aiPlayer ev' maxDepth"
    using "3.IH"(1) "3.prems" by simp
  show ?case using "3.IH"(2)[OF refl _ "3.prems"] e
    by (simp add: Let_def)
next
  case (4 board depth alpha beta aiPlayer ev maxDepth minEval)
  show ?case by simp
next
  case (5 board depth alpha beta aiPlayer ev maxDepth move rest minEval)
  have e: "alphaBetaSearch (makeMove board move (getOpponent aiPlayer)) (depth + 1) alpha beta True aiPlayer ev maxDepth
         = alphaBetaSearch (makeMove board move (getOpponent aiPlayer)) (depth + 1) alpha beta True aiPlayer ev' maxDepth"
    using "5.IH"(1) "5.prems" by simp
  show ?case using "5.IH"(2)[OF refl _ "5.prems"] e
    by (simp add: Let_def)
qed

section \<open>The full-depth policy never loses\<close>

text \<open>
  When the depth limit cannot be reached (depth plus empty cells within the limit, limit
  below 100), whether the minimax value of a position is at least 0 does not depend on the
  depth at which the position is searched. So "the value is at least 0" is an invariant of
  the game: the AI side's best move keeps it, and it holds after every reply because the
  value at the other side's turn is a minimum over all replies.
\<close>

lemma sign_shift:
  "md < 100 \<Longrightarrow> depth + nulls board \<le> md \<Longrightarrow> d' + nulls board \<le> md \<Longrightarrow>
   (Fin 0 \<le> minimaxSearch board depth t ai ev md) = (Fin 0 \<le> minimaxSearch board d' t ai ev md)"
proof (induction board depth t ai ev md arbitrary: d' rule: minimaxSearch.induct)
  case (1 board depth t ai ev md)
  show ?case
  proof (cases "terminal (isTerminal board)")
    case True
    with "1.prems" show ?thesis by (simp add: minimax_terminal)
  next
    case False
    then have pos: "0 < nulls board" by (rule not_terminal_nulls)
    with "1.prems" have lt: "depth < md" "d' < md" by simp_all
    then have nle: "\<not> md \<le> depth" by simp
    show ?thesis
    proof (cases t)
      case True
      have "(Fin 0 \<le> minimaxSearch (makeMove board m ai) (depth + 1) False ai ev md) =
            (Fin 0 \<le> minimaxSearch (makeMove board m ai) (d' + 1) False ai ev md)"
        if "m \<in> set (getLegalMoves board)" for m
        using "1.IH"(1)[OF False nle True that "1.prems"(1), of "d' + 1"] "1.prems"(2,3) nulls_makeMove[OF that, of ai]
        by simp
      then show ?thesis using False lt True
        by (simp add: minimax_max Fin0_le_foldr_max)
    next
      case F: False
      have "(Fin 0 \<le> minimaxSearch (makeMove board m (getOpponent ai)) (depth + 1) True ai ev md) =
            (Fin 0 \<le> minimaxSearch (makeMove board m (getOpponent ai)) (d' + 1) True ai ev md)"
        if "m \<in> set (getLegalMoves board)" for m
        using "1.IH"(2)[OF False nle F that "1.prems"(1), of "d' + 1"] "1.prems"(2,3) nulls_makeMove[OF that, of "getOpponent ai"]
        by simp
      then show ?thesis using False lt F
        by (simp add: minimax_min Fin0_le_foldr_min)
    qed
  qed
qed

lemma someMove_D:
  "someMove k ai board ms \<Longrightarrow>
   \<exists>m\<in>set ms. cellAt board m = Null \<and> cannotLose k ai (makeMove board m ai) False"
  by (induction ms) (auto split: if_splits)

lemma everyMove_D:
  "everyMove k ai board ms \<Longrightarrow> m \<in> set ms \<Longrightarrow> cannotLose k ai (makeMove board m (getOpponent ai)) True"
  by (induction ms) (auto split: if_splits)

lemma cannotLose_sound:
  "cannotLose n ai board t \<Longrightarrow> md < 100 \<Longrightarrow> depth + nulls board \<le> md \<Longrightarrow>
   Fin 0 \<le> minimaxSearch board depth t ai ev md"
proof (induction n arbitrary: board t depth)
  case 0
  then show ?case
    by (auto simp: cannotLose.simps[of 0] minimax_terminal terminal_iff winner_eq getOpponent_neq
             split: option.splits if_splits)
next
  case (Suc k)
  show ?case
  proof (cases "terminal (isTerminal board)")
    case True
    with Suc.prems show ?thesis
      by (auto simp: cannotLose.simps[of "Suc k"] minimax_terminal terminal_iff winner_eq getOpponent_neq
               split: option.splits if_splits)
  next
    case False
    then have pos: "0 < nulls board" by (rule not_terminal_nulls)
    with Suc.prems have lt: "depth < md" by simp
    from False have "checkWinner board = None \<and> \<not> isBoardFull board"
      unfolding terminal_iff by blast
    then have nw: "checkWinner board = None" "\<not> isBoardFull board" by simp_all
    show ?thesis
    proof (cases t)
      case True
      with Suc.prems(1) nw have "someMove k ai board tryOrder" by (simp add: cannotLose.simps[of "Suc k"])
      then obtain m where m: "cellAt board m = Null" "cannotLose k ai (makeMove board m ai) False"
        by (blast dest: someMove_D)
      then have leg: "m \<in> set (getLegalMoves board)" by (simp add: cellAt_Null_iff)
      have "Fin 0 \<le> minimaxSearch (makeMove board m ai) (depth + 1) False ai ev md"
        using Suc.IH[OF m(2) Suc.prems(2)] nulls_makeMove[OF leg, of ai] Suc.prems(3) by simp
      with leg show ?thesis using False lt True
        by (auto simp: minimax_max Fin0_le_foldr_max)
    next
      case F: False
      with Suc.prems(1) nw have em: "everyMove k ai board (getLegalMoves board)"
        by (simp add: cannotLose.simps[of "Suc k"])
      have "Fin 0 \<le> minimaxSearch (makeMove board m (getOpponent ai)) (depth + 1) True ai ev md"
        if "m \<in> set (getLegalMoves board)" for m
        using Suc.IH[OF everyMove_D[OF em that] Suc.prems(2)] nulls_makeMove[OF that, of "getOpponent ai"] Suc.prems(3)
        by simp
      then show ?thesis using False lt F
        by (auto simp: minimax_min Fin0_le_foldr_min)
    qed
  qed
qed

subsection \<open>Boards of nine cells\<close>

text \<open>
  The rules engine on a literal board of nine cells, as rewrite rules that decide each
  question in a few steps; with them the bounded game-tree check of the empty board is
  evaluated by rewriting.
\<close>

lemma cellAt9:
  "cellAt [a,b,c,d,e,f,g,h,i] 0 = a"
  "cellAt [a,b,c,d,e,f,g,h,i] 1 = b"
  "cellAt [a,b,c,d,e,f,g,h,i] (Suc 0) = b"
  "cellAt [a,b,c,d,e,f,g,h,i] 2 = c"
  "cellAt [a,b,c,d,e,f,g,h,i] 3 = d"
  "cellAt [a,b,c,d,e,f,g,h,i] 4 = e"
  "cellAt [a,b,c,d,e,f,g,h,i] 5 = f"
  "cellAt [a,b,c,d,e,f,g,h,i] 6 = g"
  "cellAt [a,b,c,d,e,f,g,h,i] 7 = h"
  "cellAt [a,b,c,d,e,f,g,h,i] 8 = i"
  by (simp_all add: cellAt_def)

lemma makeMove9:
  "makeMove [a,b,c,d,e,f,g,h,i] 0 p = [Mk p,b,c,d,e,f,g,h,i]"
  "makeMove [a,b,c,d,e,f,g,h,i] 1 p = [a,Mk p,c,d,e,f,g,h,i]"
  "makeMove [a,b,c,d,e,f,g,h,i] (Suc 0) p = [a,Mk p,c,d,e,f,g,h,i]"
  "makeMove [a,b,c,d,e,f,g,h,i] 2 p = [a,b,Mk p,d,e,f,g,h,i]"
  "makeMove [a,b,c,d,e,f,g,h,i] 3 p = [a,b,c,Mk p,e,f,g,h,i]"
  "makeMove [a,b,c,d,e,f,g,h,i] 4 p = [a,b,c,d,Mk p,f,g,h,i]"
  "makeMove [a,b,c,d,e,f,g,h,i] 5 p = [a,b,c,d,e,Mk p,g,h,i]"
  "makeMove [a,b,c,d,e,f,g,h,i] 6 p = [a,b,c,d,e,f,Mk p,h,i]"
  "makeMove [a,b,c,d,e,f,g,h,i] 7 p = [a,b,c,d,e,f,g,Mk p,i]"
  "makeMove [a,b,c,d,e,f,g,h,i] 8 p = [a,b,c,d,e,f,g,h,Mk p]"
  by (simp_all add: makeMove_def)

lemma getLegalMoves9:
  "getLegalMoves [a,b,c,d,e,f,g,h,i] =
     (if a = Null then [0] else []) @ (if b = Null then [1] else []) @ (if c = Null then [2] else []) @
     (if d = Null then [3] else []) @ (if e = Null then [4] else []) @ (if f = Null then [5] else []) @
     (if g = Null then [6] else []) @ (if h = Null then [7] else []) @ (if i = Null then [8] else [])"
  by (simp add: getLegalMoves_def)

lemma isBoardFull9:
  "isBoardFull [a,b,c,d,e,f,g,h,i] = (a \<noteq> Null \<and> b \<noteq> Null \<and> c \<noteq> Null \<and> d \<noteq> Null \<and> e \<noteq> Null \<and> f \<noteq> Null \<and> g \<noteq> Null \<and> h \<noteq> Null \<and> i \<noteq> Null)"
  by (simp add: isBoardFull_def)

lemma emptyBoard9: "createEmptyBoard = [Null, Null, Null, Null, Null, Null, Null, Null, Null]"
  by (simp add: createEmptyBoard_def numeral_eq_Suc)

lemma row3_iff: "row3 x y z = (case x of Mk p \<Rightarrow> x = y \<and> x = z | _ \<Rightarrow> False)"
  by (cases x; cases y; cases z) auto

lemma checkWinnerLoop_step:
  "checkWinnerLoop board ((a, b, c) # rest) =
     (if row3 (cellAt board a) (cellAt board b) (cellAt board c)
      then Some (case cellAt board a of Mk p \<Rightarrow> p, [a, b, c])
      else checkWinnerLoop board rest)"
  by (cases "cellAt board a"; cases "cellAt board b"; cases "cellAt board c") auto

lemma checkWinner9:
  "checkWinner [a,b,c,d,e,f,g,h,i] =
    (if row3 a b c then Some (case a of Mk p \<Rightarrow> p, [0,1,2])
     else if row3 d e f then Some (case d of Mk p \<Rightarrow> p, [3,4,5])
     else if row3 g h i then Some (case g of Mk p \<Rightarrow> p, [6,7,8])
     else if row3 a d g then Some (case a of Mk p \<Rightarrow> p, [0,3,6])
     else if row3 b e h then Some (case b of Mk p \<Rightarrow> p, [1,4,7])
     else if row3 c f i then Some (case c of Mk p \<Rightarrow> p, [2,5,8])
     else if row3 a e i then Some (case a of Mk p \<Rightarrow> p, [0,4,8])
     else if row3 c e g then Some (case c of Mk p \<Rightarrow> p, [2,4,6])
     else None)"
  unfolding checkWinner_def winPatterns_def checkWinnerLoop_step cellAt9 checkWinnerLoop.simps(1)
  by (rule refl)

lemma notNull_iff: "notNull x = (x \<noteq> Null)"
  by (cases x) simp_all

lemma isBoardFull9':
  "isBoardFull [a,b,c,d,e,f,g,h,i] = (if notNull a then if notNull b then if notNull c then if notNull d then
     if notNull e then if notNull f then if notNull g then if notNull h then notNull i else False else False else False else False else False else False else False else False)"
  by (simp add: isBoardFull_def notNull_iff)

lemmas evalRules = cannotLose.simps someMove.simps everyMove.simps checkWinner9 row3.simps notNull.simps tryOrder_def
  cellAt9 makeMove9 getLegalMoves9 isBoardFull9' getOpponent_def emptyBoard9
  cell.case cell.distinct cell.inject mark.distinct option.case nat.case
  if_True if_False simp_thms fst_conv snd_conv append_Cons append_Nil

lemma cannotLose_start:
  "cannotLose (Suc (Suc (Suc (Suc (Suc (Suc (Suc (Suc (Suc 0))))))))) MarkX createEmptyBoard True"
  "cannotLose (Suc (Suc (Suc (Suc (Suc (Suc (Suc (Suc (Suc 0))))))))) MarkO createEmptyBoard True"
  "cannotLose (Suc (Suc (Suc (Suc (Suc (Suc (Suc (Suc (Suc 0))))))))) MarkX createEmptyBoard False"
  "cannotLose (Suc (Suc (Suc (Suc (Suc (Suc (Suc (Suc (Suc 0))))))))) MarkO createEmptyBoard False"
  by (simp_all only: evalRules cong: if_weak_cong option.case_cong_weak cell.case_cong_weak nat.case_cong_weak)

lemma nulls_empty: "nulls createEmptyBoard = 9"
  by (simp add: nulls_def createEmptyBoard_def)

lemma start_value: "Fin 0 \<le> minimaxSearch createEmptyBoard 0 t ai ev 9"
proof -
  have "cannotLose (Suc (Suc (Suc (Suc (Suc (Suc (Suc (Suc (Suc 0))))))))) ai createEmptyBoard t"
    using cannotLose_start by (cases ai; cases t) simp_all
  then show ?thesis by (rule cannotLose_sound) (simp_all add: nulls_empty)
qed

lemma gamePosition_invariant:
  "gamePosition ai ev 9 board t \<Longrightarrow>
   Fin 0 \<le> minimaxSearch board 0 t ai ev 9 \<and> nulls board \<le> 9"
proof (induction rule: gamePosition.induct)
  case (startGame aiFirst)
  show ?case by (simp add: start_value nulls_empty)
next
  case (makeAIMove board move)
  then have v: "Fin 0 \<le> minimaxSearch board 0 True ai ev 9" and n: "nulls board \<le> 9" by simp_all
  from makeAIMove.hyps(2) have pos: "0 < nulls board" by (rule not_terminal_nulls)
  from findBestMove_Some[OF makeAIMove.hyps(3)]
  have leg: "move \<in> set (getLegalMoves board)"
    and best: "\<forall>x\<in>set (getLegalMoves board).
            minimaxSearch (makeMove board x ai) 0 False ai ev 9
              \<le> minimaxSearch (makeMove board move ai) 0 False ai ev 9"
    by simp_all
  from v makeAIMove.hyps(2) obtain x where x: "x \<in> set (getLegalMoves board)"
      "Fin 0 \<le> minimaxSearch (makeMove board x ai) (0 + 1) False ai ev 9"
    by (auto simp: minimax_max Fin0_le_foldr_max)
  have "Fin 0 \<le> minimaxSearch (makeMove board x ai) 0 False ai ev 9"
    using x(2) sign_shift[of 9 "0 + 1" "makeMove board x ai" 0 False ai ev] nulls_makeMove[OF x(1), of ai] n
    by simp
  with best x(1) have "Fin 0 \<le> minimaxSearch (makeMove board move ai) 0 False ai ev 9"
    by (blast intro: order_trans)
  moreover have "nulls (makeMove board move ai) \<le> 9"
    using nulls_makeMove[OF leg, of ai] n by simp
  ultimately show ?case by simp
next
  case (handleCellClick board index)
  then have v: "Fin 0 \<le> minimaxSearch board 0 False ai ev 9" and n: "nulls board \<le> 9" by simp_all
  from handleCellClick.hyps(3) have leg: "index \<in> set (getLegalMoves board)"
    by (simp add: cellAt_Null_iff)
  from v handleCellClick.hyps(2) leg
  have "Fin 0 \<le> minimaxSearch (makeMove board index (getOpponent ai)) (0 + 1) True ai ev 9"
    by (auto simp: minimax_min Fin0_le_foldr_min)
  then have "Fin 0 \<le> minimaxSearch (makeMove board index (getOpponent ai)) 0 True ai ev 9"
    using sign_shift[of 9 "0 + 1" "makeMove board index (getOpponent ai)" 0 True ai ev]
      nulls_makeMove[OF leg, of "getOpponent ai"] n
    by simp
  moreover have "nulls (makeMove board index (getOpponent ai)) \<le> 9"
    using nulls_makeMove[OF leg, of "getOpponent ai"] n by simp
  ultimately show ?case by simp
qed

section \<open>Evaluating the search on a concrete board\<close>

text \<open>
  Rewrite rules that run \<open>findBestMove\<close> on a literal board of nine cells: the search
  equation with the winner looked up once, the comparisons of scores, and numeral
  arithmetic for the depth.
\<close>

lemma abs_eval:
  "alphaBetaSearch board depth alpha beta t ai ev md =
     (case checkWinner board of
        Some wl \<Rightarrow> (if fst wl = ai then Fin (100 - real depth) else Fin (real depth - 100))
      | None \<Rightarrow>
          if isBoardFull board then Fin 0
          else if md \<le> depth then ev board ai
          else if t then maxLoop board depth alpha beta ai ev md (getLegalMoves board) NegInf
          else minLoop board depth alpha beta ai ev md (getLegalMoves board) PosInf)"
proof (cases "checkWinner board")
  case None
  then show ?thesis by (simp add: alphaBetaSearch.simps[of board] terminal_iff winner_eq)
next
  case (Some wl)
  then show ?thesis
    by (cases wl; cases "fst wl"; cases ai)
       (simp_all add: alphaBetaSearch.simps[of board] terminal_iff winner_eq getOpponent_def)
qed

lemma Let_Fin: "Let (Fin x) f = f (Fin x)" "Let NegInf f = f NegInf" "Let PosInf f = f PosInf"
  by simp_all

lemma Let_list: "Let [] f = f []" "Let (x # xs) f = f (x # xs)"
  by simp_all

lemma jsnum_cmp:
  "NegInf \<le> a" "a \<le> PosInf" "(Fin x \<le> Fin y) = (x \<le> y)" "(Fin x \<le> NegInf) = False"
  "(PosInf \<le> Fin x) = False" "(PosInf \<le> NegInf) = False"
  "(Fin x < Fin y) = (x < y)" "(NegInf < Fin x) = True" "(Fin x < PosInf) = True"
  "(a < NegInf) = False" "(PosInf < a) = False"
  "max NegInf a = a" "max a NegInf = a" "min PosInf a = a" "min a PosInf = a"
  "max (Fin x) (Fin y) = Fin (max x y)" "min (Fin x) (Fin y) = Fin (min x y)"
  by (cases a; auto simp: less_jsnum_def max_def min_def)+

lemmas searchRules = findBestMove_def findBestMoveLoop.simps abs_eval maxLoop.simps minLoop.simps
  checkWinner9 row3.simps isBoardFull9' notNull.simps getLegalMoves9 makeMove9
  Let_Fin Let_list jsnum_cmp getOpponent_def
  cell.case cell.distinct cell.inject mark.distinct mark.case option.case option.inject option.distinct
  search_result.simps
  if_True if_False simp_thms fst_conv snd_conv append_Cons append_Nil
  arith_simps rel_simps of_nat_numeral of_nat_0 of_nat_1 max_def min_def
  diff_numeral_special add_numeral_special numeral_plus_one one_add_one add_0 diff_0 diff_zero
  more_arith_simps

lemmas boardRules = terminal_iff winner_eq checkWinner9 isBoardFull9' cellAt9 makeMove9
  getLegalMoves9 getOpponent_def emptyBoard9

section \<open>The claims about the search\<close>

text \<open>
  C1. For every board, depth and evaluator the pruned search started with the full window
  returns the value of the plain minimax search. Hence \<open>findBestMove\<close> returns what the
  same root loop over plain minimax returns: the root score is the maximum of the minimax
  values of the legal moves, and the moves whose value equals the root score are the moves
  whose minimax value is that maximum.
\<close>

theorem alphaBeta_equals_minimax:
  "alphaBetaSearch board depth NegInf PosInf isMaximizing aiPlayer ev maxDepth =
     minimaxSearch board depth isMaximizing aiPlayer ev maxDepth
   \<and> findBestMove board aiPlayer ev maxDepth = findBestMoveMinimax board aiPlayer ev maxDepth
   \<and> bestValue (findBestMove board aiPlayer ev maxDepth) =
       foldr max (map (\<lambda>move. minimaxSearch (makeMove board move aiPlayer) 0 False aiPlayer ev maxDepth)
                      (getLegalMoves board)) NegInf
   \<and> bestMoveSet (findBestMove board aiPlayer ev maxDepth) =
       {move \<in> set (getLegalMoves board).
          minimaxSearch (makeMove board move aiPlayer) 0 False aiPlayer ev maxDepth =
          foldr max (map (\<lambda>move. minimaxSearch (makeMove board move aiPlayer) 0 False aiPlayer ev maxDepth)
                         (getLegalMoves board)) NegInf}
   \<and> bestMoveSet (findBestMove board aiPlayer ev maxDepth) =
       bestMoveSet (findBestMoveMinimax board aiPlayer ev maxDepth)"
proof -
  have mv: "moveValue board aiPlayer ev maxDepth =
      (\<lambda>move. minimaxSearch (makeMove board move aiPlayer) 0 False aiPlayer ev maxDepth)"
    by (rule ext) (simp add: moveValue_def ab_eq_minimax)
  have eq: "findBestMove board aiPlayer ev maxDepth = findBestMoveMinimax board aiPlayer ev maxDepth"
    by (simp add: findBestMove_def findBestMoveMinimax_def findBestMoveLoop_eq_minimax)
  have bv: "bestValue (findBestMove board aiPlayer ev maxDepth) =
       foldr max (map (\<lambda>move. minimaxSearch (makeMove board move aiPlayer) 0 False aiPlayer ev maxDepth)
                      (getLegalMoves board)) NegInf"
    by (simp add: findBestMove_def findBestMove_bestValue mv)
  have evs: "moveEvaluations (findBestMove board aiPlayer ev maxDepth) =
       map (\<lambda>m. (m, minimaxSearch (makeMove board m aiPlayer) 0 False aiPlayer ev maxDepth))
           (getLegalMoves board)"
    by (simp add: findBestMove_def findBestMoveLoop_evals ab_eq_minimax)
  have "bestMoveSet (findBestMove board aiPlayer ev maxDepth) =
       {move \<in> set (getLegalMoves board).
          minimaxSearch (makeMove board move aiPlayer) 0 False aiPlayer ev maxDepth =
          bestValue (findBestMove board aiPlayer ev maxDepth)}"
    unfolding bestMoveSet_def evs by auto
  with eq bv show ?thesis by (simp add: ab_eq_minimax)
qed

text \<open>
  C2. In a game that starts on the empty board, in which the AI side plays the move
  \<open>findBestMove\<close> returns for depth 9 and the other side plays any empty cell, no position
  is a win of the other side: every terminal position reached is a win of the AI side or a
  draw. This holds for both marks, whoever moves first, and for every evaluator.
\<close>

theorem full_depth_search_never_loses:
  assumes "gamePosition aiPlayer evaluateFunction 9 board aiToMove"
  shows "winner (isTerminal board) \<noteq> Won (getOpponent aiPlayer)
         \<and> (terminal (isTerminal board) \<longrightarrow>
              winner (isTerminal board) = Won aiPlayer \<or> winner (isTerminal board) = Draw)"
proof -
  have nl: "winner (isTerminal board) \<noteq> Won (getOpponent aiPlayer)"
  proof
    assume w: "winner (isTerminal board) = Won (getOpponent aiPlayer)"
    then have "terminal (isTerminal board)"
      by (auto simp: isTerminal_def split: option.splits if_splits)
    with w have "minimaxSearch board 0 aiToMove aiPlayer evaluateFunction 9 = Fin (0 - 100)"
      by (simp add: minimax_terminal getOpponent_neq)
    with gamePosition_invariant[OF assms] show False by simp
  qed
  have "winner (isTerminal board) = Won aiPlayer \<or> winner (isTerminal board) = Draw"
    if "terminal (isTerminal board)"
    using that nl winner_cases[of board aiPlayer] by blast
  with nl show ?thesis by blast
qed

theorem full_depth_search_never_loses_witness:
  "gamePosition MarkO (\<lambda>b p. Fin 0) 9
     [Mk MarkX, Mk MarkX, Mk MarkO, Mk MarkX, Mk MarkO, Null, Mk MarkO, Null, Null] False
   \<and> terminal (isTerminal [Mk MarkX, Mk MarkX, Mk MarkO, Mk MarkX, Mk MarkO, Null, Mk MarkO, Null, Null])
   \<and> winner (isTerminal [Mk MarkX, Mk MarkX, Mk MarkO, Mk MarkX, Mk MarkO, Null, Mk MarkO, Null, Null])
       \<noteq> Won (getOpponent MarkO)
   \<and> winner (isTerminal [Mk MarkX, Mk MarkX, Mk MarkO, Mk MarkX, Mk MarkO, Null, Mk MarkO, Null, Null])
       = Won MarkO"
proof -
  let ?ev = "\<lambda>(b::board) (p::mark). Fin 0"
  have p0: "gamePosition MarkO ?ev 9 [Null, Null, Null, Null, Null, Null, Null, Null, Null] False"
    using startGame[of MarkO ?ev 9 False] by (simp add: emptyBoard9)
  have p1: "gamePosition MarkO ?ev 9 [Mk MarkX, Null, Null, Null, Null, Null, Null, Null, Null] True"
    using handleCellClick[OF p0, of 0] by (simp add: boardRules)
  have b1: "bestMove (findBestMove [Mk MarkX, Null, Null, Null, Null, Null, Null, Null, Null]
                        MarkO ?ev 9) = Some 4"
    by (simp only: searchRules cong: if_weak_cong option.case_cong_weak let_weak_cong)
  have p2: "gamePosition MarkO ?ev 9 [Mk MarkX, Null, Null, Null, Mk MarkO, Null, Null, Null, Null] False"
    using makeAIMove[OF p1 _ b1] by (simp add: boardRules)
  have p3: "gamePosition MarkO ?ev 9 [Mk MarkX, Mk MarkX, Null, Null, Mk MarkO, Null, Null, Null, Null] True"
    using handleCellClick[OF p2, of 1] by (simp add: boardRules)
  have b3: "bestMove (findBestMove [Mk MarkX, Mk MarkX, Null, Null, Mk MarkO, Null, Null, Null, Null]
                        MarkO ?ev 9) = Some 2"
    by (simp only: searchRules cong: if_weak_cong option.case_cong_weak let_weak_cong)
  have p4: "gamePosition MarkO ?ev 9 [Mk MarkX, Mk MarkX, Mk MarkO, Null, Mk MarkO, Null, Null, Null, Null] False"
    using makeAIMove[OF p3 _ b3] by (simp add: boardRules)
  have p5: "gamePosition MarkO ?ev 9 [Mk MarkX, Mk MarkX, Mk MarkO, Mk MarkX, Mk MarkO, Null, Null, Null, Null] True"
    using handleCellClick[OF p4, of 3] by (simp add: boardRules)
  have b5: "bestMove (findBestMove [Mk MarkX, Mk MarkX, Mk MarkO, Mk MarkX, Mk MarkO, Null, Null, Null, Null]
                        MarkO ?ev 9) = Some 6"
    by (simp only: searchRules cong: if_weak_cong option.case_cong_weak let_weak_cong)
  have p6: "gamePosition MarkO ?ev 9 [Mk MarkX, Mk MarkX, Mk MarkO, Mk MarkX, Mk MarkO, Null, Mk MarkO, Null, Null] False"
    using makeAIMove[OF p5 _ b5] by (simp add: boardRules)
  from p6 full_depth_search_never_loses[OF p6] show ?thesis
    by (simp add: boardRules)
qed

text \<open>
  C3. On a terminal board the search returns 100 - depth when the winner is the AI mark,
  depth - 100 when the winner is its opponent and 0 for a draw, at every depth (also at or
  beyond the depth limit), for every window and every evaluator: the evaluator is not
  consulted. On a non-terminal board at or beyond the depth limit the result is the
  evaluator's score. Two evaluators that agree on all non-terminal boards give the same
  search result on every board, so the search applies the evaluator to non-terminal boards
  only.
\<close>

theorem terminal_scoring_overrides_evaluator:
  "(terminal (isTerminal board) \<longrightarrow>
      alphaBetaSearch board depth alpha beta isMaximizing aiPlayer ev maxDepth =
        (if winner (isTerminal board) = Won aiPlayer then Fin (100 - real depth)
         else if winner (isTerminal board) = Won (getOpponent aiPlayer) then Fin (real depth - 100)
         else Fin 0)
      \<and> (winner (isTerminal board) = Won aiPlayer \<or> winner (isTerminal board) = Won (getOpponent aiPlayer)
          \<or> winner (isTerminal board) = Draw))
   \<and> (\<not> terminal (isTerminal board) \<and> maxDepth \<le> depth \<longrightarrow>
       alphaBetaSearch board depth alpha beta isMaximizing aiPlayer ev maxDepth = ev board aiPlayer)
   \<and> ((\<forall>b. \<not> terminal (isTerminal b) \<longrightarrow> ev b aiPlayer = ev' b aiPlayer) \<longrightarrow>
       alphaBetaSearch board depth alpha beta isMaximizing aiPlayer ev maxDepth =
       alphaBetaSearch board depth alpha beta isMaximizing aiPlayer ev' maxDepth)"
proof (intro conjI impI)
  assume "terminal (isTerminal board)"
  then show "alphaBetaSearch board depth alpha beta isMaximizing aiPlayer ev maxDepth =
        (if winner (isTerminal board) = Won aiPlayer then Fin (100 - real depth)
         else if winner (isTerminal board) = Won (getOpponent aiPlayer) then Fin (real depth - 100)
         else Fin 0)"
    by (simp add: alphaBetaSearch.simps[of board])
next
  assume "terminal (isTerminal board)"
  then show "winner (isTerminal board) = Won aiPlayer \<or> winner (isTerminal board) = Won (getOpponent aiPlayer)
          \<or> winner (isTerminal board) = Draw"
    by (rule winner_cases)
next
  assume "\<not> terminal (isTerminal board) \<and> maxDepth \<le> depth"
  then show "alphaBetaSearch board depth alpha beta isMaximizing aiPlayer ev maxDepth = ev board aiPlayer"
    by (simp add: alphaBetaSearch.simps[of board])
next
  assume "\<forall>b. \<not> terminal (isTerminal b) \<longrightarrow> ev b aiPlayer = ev' b aiPlayer"
  then show "alphaBetaSearch board depth alpha beta isMaximizing aiPlayer ev maxDepth =
       alphaBetaSearch board depth alpha beta isMaximizing aiPlayer ev' maxDepth"
    by (rule ab_evaluator_ext(1))
qed

theorem terminal_scoring_overrides_evaluator_witness:
  "terminal (isTerminal [Mk MarkX, Mk MarkX, Mk MarkX, Mk MarkO, Mk MarkO, Null, Null, Null, Null])
   \<and> alphaBetaSearch [Mk MarkX, Mk MarkX, Mk MarkX, Mk MarkO, Mk MarkO, Null, Null, Null, Null]
        3 NegInf PosInf True MarkO (\<lambda>b p. Fin 50) 2 = Fin (- 97)
   \<and> alphaBetaSearch [Mk MarkX, Mk MarkX, Mk MarkX, Mk MarkO, Mk MarkO, Null, Null, Null, Null]
        3 NegInf PosInf True MarkX (\<lambda>b p. Fin 50) 2 = Fin 97
   \<and> \<not> terminal (isTerminal [Mk MarkX, Mk MarkX, Null, Mk MarkO, Mk MarkO, Null, Null, Null, Null])
   \<and> alphaBetaSearch [Mk MarkX, Mk MarkX, Null, Mk MarkO, Mk MarkO, Null, Null, Null, Null]
        2 NegInf PosInf True MarkO (\<lambda>b p. Fin 50) 2 = Fin 50
   \<and> alphaBetaSearch [Mk MarkX, Mk MarkX, Null, Mk MarkO, Mk MarkO, Null, Null, Null, Null]
        0 NegInf PosInf True MarkO (\<lambda>b p. Fin 50) 2
     = alphaBetaSearch [Mk MarkX, Mk MarkX, Null, Mk MarkO, Mk MarkO, Null, Null, Null, Null]
        0 NegInf PosInf True MarkO (\<lambda>b p. if terminal (isTerminal b) then Fin 7 else Fin 50) 2"
proof -
  let ?won = "[Mk MarkX, Mk MarkX, Mk MarkX, Mk MarkO, Mk MarkO, Null, Null, Null, Null]"
  let ?open = "[Mk MarkX, Mk MarkX, Null, Mk MarkO, Mk MarkO, Null, Null, Null, Null]"
  let ?ev = "\<lambda>(b::board) (p::mark). Fin 50"
  let ?ev' = "\<lambda>(b::board) (p::mark). if terminal (isTerminal b) then Fin 7 else Fin 50"
  have t: "terminal (isTerminal ?won)" "winner (isTerminal ?won) = Won MarkX"
    "\<not> terminal (isTerminal ?open)"
    by (simp_all add: boardRules)
  have agree: "\<forall>b. \<not> terminal (isTerminal b) \<longrightarrow> ?ev b MarkO = ?ev' b MarkO"
    by simp
  from t agree
    terminal_scoring_overrides_evaluator[of ?won 3 NegInf PosInf True MarkO ?ev 2 ?ev']
    terminal_scoring_overrides_evaluator[of ?won 3 NegInf PosInf True MarkX ?ev 2 ?ev']
    terminal_scoring_overrides_evaluator[of ?open 2 NegInf PosInf True MarkO ?ev 2 ?ev']
    terminal_scoring_overrides_evaluator[of ?open 0 NegInf PosInf True MarkO ?ev 2 ?ev']
  show ?thesis by (simp add: getOpponent_def)
qed

text \<open>
  C4, as stated, fails: the root loop starts from \<open>bestMove = null\<close> and
  \<open>bestValue = -Infinity\<close> and replaces them only on a strictly greater value. With an
  evaluator that scores every board \<open>-Infinity\<close> and depth limit 0, every root value on the
  empty board is \<open>-Infinity\<close>, and \<open>findBestMove\<close> returns no move although nine moves are
  legal.
\<close>

theorem findBestMove_no_move_counterexample:
  "getLegalMoves [Null, Null, Null, Null, Null, Null, Null, Null, Null] = [0, 1, 2, 3, 4, 5, 6, 7, 8]
   \<and> moveValue [Null, Null, Null, Null, Null, Null, Null, Null, Null] MarkX (\<lambda>b p. NegInf) 0 0 = NegInf
   \<and> bestMove (findBestMove [Null, Null, Null, Null, Null, Null, Null, Null, Null]
                  MarkX (\<lambda>b p. NegInf) 0) = None
   \<and> bestValue (findBestMove [Null, Null, Null, Null, Null, Null, Null, Null, Null]
                  MarkX (\<lambda>b p. NegInf) 0) = NegInf"
  by (simp only: moveValue_def searchRules
        cong: if_weak_cong option.case_cong_weak let_weak_cong)

text \<open>
  C4, amended. When some legal move has a root value above \<open>-Infinity\<close>, \<open>findBestMove\<close>
  returns a move: a legal move whose value is the maximum of the values of all legal moves,
  and the lowest-index one among the legal moves of that value; every legal move of lower
  index has a strictly smaller value, so a later move of equal value never replaces it.
  When all scores of the evaluator are finite, every root value is above \<open>-Infinity\<close>, so
  the condition holds on every board with a legal move. Root values are numbers or
  infinities here, not \<open>NaN\<close>.
\<close>

theorem findBestMove_first_maximum:
  "((\<exists>m\<in>set (getLegalMoves board). NegInf < moveValue board aiPlayer ev maxDepth m) \<longrightarrow>
      (\<exists>m. bestMove (findBestMove board aiPlayer ev maxDepth) = Some m
           \<and> m \<in> set (getLegalMoves board)
           \<and> bestValue (findBestMove board aiPlayer ev maxDepth) = moveValue board aiPlayer ev maxDepth m
           \<and> moveValue board aiPlayer ev maxDepth m =
               Max (moveValue board aiPlayer ev maxDepth ` set (getLegalMoves board))
           \<and> (\<forall>m'\<in>set (getLegalMoves board).
                 moveValue board aiPlayer ev maxDepth m' = moveValue board aiPlayer ev maxDepth m
                 \<longrightarrow> m \<le> m')
           \<and> (\<forall>m'\<in>set (getLegalMoves board).
                 m' < m \<longrightarrow> moveValue board aiPlayer ev maxDepth m' < moveValue board aiPlayer ev maxDepth m)))
   \<and> ((\<forall>b p. \<exists>x. ev b p = Fin x) \<longrightarrow>
        (\<forall>m. NegInf < moveValue board aiPlayer ev maxDepth m))"
proof (intro conjI impI allI)
  let ?f = "moveValue board aiPlayer ev maxDepth"
  let ?ms = "getLegalMoves board"
  let ?r = "findBestMove board aiPlayer ev maxDepth"
  assume assms: "\<exists>m\<in>set ?ms. NegInf < ?f m"
  from assms obtain a where a: "a \<in> set ?ms" and "NegInf < ?f a" by blast
  then have "\<not> ?f a \<le> NegInf" by (simp add: not_le)
  with a findBestMoveLoop_best[of board aiPlayer ev maxDepth ?ms
      "\<lparr>bestMove = None, bestValue = NegInf, moveEvaluations = []\<rparr>"]
  obtain pre m post where h: "?ms = pre @ m # post" "bestMove ?r = Some m" "bestValue ?r = ?f m"
      "\<forall>x\<in>set pre. ?f x < ?f m" "\<forall>x\<in>set post. ?f x \<le> ?f m"
    unfolding findBestMove_def[symmetric] moveValue_def[symmetric] by auto
  have mem: "m \<in> set ?ms" using h(1) by simp
  have all_le: "\<forall>x\<in>set ?ms. ?f x \<le> ?f m" using h(1,4,5) by (auto simp: less_imp_le)
  have mx: "?f m = Max (?f ` set ?ms)"
    using mem all_le by (intro Max_eqI[symmetric]) auto
  have srt: "sorted_wrt (<) (pre @ m # post)" using sorted_getLegalMoves[of board] h(1) by simp
  have low: "m \<le> m'" if "m' \<in> set ?ms" "?f m' = ?f m" for m'
  proof -
    from that h(1,4) have "m' = m \<or> m' \<in> set post" by auto
    with srt show ?thesis by (auto simp: sorted_wrt_append)
  qed
  have before: "?f m' < ?f m" if "m' \<in> set ?ms" "m' < m" for m'
  proof -
    from that h(1) srt have "m' \<in> set pre" by (auto simp: sorted_wrt_append)
    with h(4) show ?thesis by simp
  qed
  from h(2,3) mem mx low before
  show "\<exists>m. bestMove ?r = Some m \<and> m \<in> set ?ms \<and> bestValue ?r = ?f m
           \<and> ?f m = Max (?f ` set ?ms)
           \<and> (\<forall>m'\<in>set ?ms. ?f m' = ?f m \<longrightarrow> m \<le> m')
           \<and> (\<forall>m'\<in>set ?ms. m' < m \<longrightarrow> ?f m' < ?f m)"
    by blast
next
  fix m
  assume "\<forall>b p. \<exists>x. ev b p = Fin x"
  then obtain x where "moveValue board aiPlayer ev maxDepth m = Fin x"
    using moveValue_finite by blast
  then show "NegInf < moveValue board aiPlayer ev maxDepth m" by (simp add: less_jsnum_def)
qed

theorem findBestMove_first_maximum_witness:
  "getLegalMoves [Mk MarkX, Mk MarkO, Mk MarkX, Null, Mk MarkO, Null, Null, Mk MarkX, Mk MarkO] = [3, 5, 6]
   \<and> NegInf < moveValue [Mk MarkX, Mk MarkO, Mk MarkX, Null, Mk MarkO, Null, Null, Mk MarkX, Mk MarkO]
        MarkX (\<lambda>b p. Fin 0) 9 3
   \<and> moveValue [Mk MarkX, Mk MarkO, Mk MarkX, Null, Mk MarkO, Null, Null, Mk MarkX, Mk MarkO]
        MarkX (\<lambda>b p. Fin 0) 9 3 = Fin 0
   \<and> moveValue [Mk MarkX, Mk MarkO, Mk MarkX, Null, Mk MarkO, Null, Null, Mk MarkX, Mk MarkO]
        MarkX (\<lambda>b p. Fin 0) 9 5 = Fin 0
   \<and> moveValue [Mk MarkX, Mk MarkO, Mk MarkX, Null, Mk MarkO, Null, Null, Mk MarkX, Mk MarkO]
        MarkX (\<lambda>b p. Fin 0) 9 6 = Fin 0
   \<and> bestMove (findBestMove [Mk MarkX, Mk MarkO, Mk MarkX, Null, Mk MarkO, Null, Null, Mk MarkX, Mk MarkO]
                  MarkX (\<lambda>b p. Fin 0) 9) = Some 3"
proof -
  let ?B = "[Mk MarkX, Mk MarkO, Mk MarkX, Null, Mk MarkO, Null, Null, Mk MarkX, Mk MarkO]"
  let ?ev = "\<lambda>(b::board) (p::mark). Fin 0"
  have lm: "getLegalMoves ?B = [3, 5, 6]" by (simp add: getLegalMoves9)
  have v: "moveValue ?B MarkX ?ev 9 3 = Fin 0" "moveValue ?B MarkX ?ev 9 5 = Fin 0"
    "moveValue ?B MarkX ?ev 9 6 = Fin 0"
    by (simp_all only: moveValue_def searchRules
          cong: if_weak_cong option.case_cong_weak let_weak_cong)
  have fin: "\<forall>b p. \<exists>x. ?ev b p = Fin x" by simp
  from fin findBestMove_first_maximum[of ?B MarkX ?ev 9]
  have above: "\<forall>m. NegInf < moveValue ?B MarkX ?ev 9 m" by blast
  with lm have pos: "\<exists>m\<in>set (getLegalMoves ?B). NegInf < moveValue ?B MarkX ?ev 9 m"
    by (intro bexI[of _ 3]) simp_all
  from pos findBestMove_first_maximum[of ?B MarkX ?ev 9]
  obtain m where m: "bestMove (findBestMove ?B MarkX ?ev 9) = Some m"
      "m \<in> set (getLegalMoves ?B)"
      "\<forall>m'\<in>set (getLegalMoves ?B).
          moveValue ?B MarkX ?ev 9 m' = moveValue ?B MarkX ?ev 9 m \<longrightarrow> m \<le> m'"
    by blast
  from m(2) lm have "m = 3 \<or> m = 5 \<or> m = 6" by simp
  with m(3) lm v have "m = 3" by auto
  with m(1) lm v show ?thesis by (simp add: less_jsnum_def)
qed

text \<open>
  C10. For every board \<open>getLegalMoves\<close> returns exactly the indices of the cells equal to
  \<open>null\<close>, in strictly ascending order and without duplicates, and the root loop of
  \<open>findBestMove\<close> evaluates the moves in that order: the moves of \<open>moveEvaluations\<close>, in
  the order they were pushed, are the legal moves.
\<close>

theorem getLegalMoves_ascending_empty_cells:
  "getLegalMoves board = filter (\<lambda>i. cellAt board i = Null) [0..<length board]
   \<and> set (getLegalMoves board) = {i. cellAt board i = Null}
   \<and> sorted_wrt (<) (getLegalMoves board)
   \<and> distinct (getLegalMoves board)
   \<and> map fst (moveEvaluations (findBestMove board aiPlayer ev maxDepth)) = getLegalMoves board"
proof -
  have "filter (\<lambda>i. cellAt board i = Null) [0..<length board] =
        filter (\<lambda>i. board ! i = Null) [0..<length board]"
    by (rule filter_cong) (auto simp: cellAt_def)
  then have 1: "getLegalMoves board = filter (\<lambda>i. cellAt board i = Null) [0..<length board]"
    by (simp add: getLegalMoves_eq)
  have 2: "set (getLegalMoves board) = {i. cellAt board i = Null}"
    by (auto simp: cellAt_Null_iff)
  have 3: "map fst (moveEvaluations (findBestMove board aiPlayer ev maxDepth)) = getLegalMoves board"
    by (simp add: findBestMove_def findBestMoveLoop_evals comp_def)
  from 1 2 3 sorted_getLegalMoves distinct_getLegalMoves show ?thesis by blast
qed

section \<open>The claim about applying a move\<close>

text \<open>
  C8, as stated, fails: \<open>makeMove\<close> has no occupancy check and no error. On a board whose
  cell 0 holds X, playing O at 0 returns a board, different from the input, with O in
  cell 0.
\<close>

theorem makeMove_occupied_counterexample:
  "cellAt [Mk MarkX, Null, Null, Null, Null, Null, Null, Null, Null] 0 \<noteq> Null
   \<and> makeMove [Mk MarkX, Null, Null, Null, Null, Null, Null, Null, Null] 0 MarkO
       = [Mk MarkO, Null, Null, Null, Null, Null, Null, Null, Null]
   \<and> makeMove [Mk MarkX, Null, Null, Null, Null, Null, Null, Null, Null] 0 MarkO
       \<noteq> [Mk MarkX, Null, Null, Null, Null, Null, Null, Null, Null]"
  by (simp add: makeMove_def cellAt_def)

text \<open>
  C8, amended. \<open>makeMove\<close> always returns a board that holds the mark at the move index and
  agrees with the input at every other index, whether or not the target cell was occupied:
  an occupied cell is overwritten. The result has the length of the input when the index
  is inside the board.
\<close>

theorem makeMove_overwrites:
  "cellAt (makeMove board position player) i = (if i = position then Mk player else cellAt board i)
   \<and> length (makeMove board position player) = max (length board) (position + 1)"
  by (auto simp: makeMove_def cellAt_def nth_append nth_list_update)

theorem makeMove_overwrites_witness:
  "cellAt (makeMove [Mk MarkX, Null, Null, Null, Null, Null, Null, Null, Null] 0 MarkO) 0 = Mk MarkO
   \<and> cellAt (makeMove [Mk MarkX, Null, Null, Null, Null, Null, Null, Null, Null] 0 MarkO) 1 = Null
   \<and> length (makeMove [Mk MarkX, Null, Null, Null, Null, Null, Null, Null, Null] 0 MarkO) = 9"
  using makeMove_overwrites[of "[Mk MarkX, Null, Null, Null, Null, Null, Null, Null, Null]" 0 MarkO 0]
    makeMove_overwrites[of "[Mk MarkX, Null, Null, Null, Null, Null, Null, Null, Null]" 0 MarkO 1]
  by (simp add: makeMove9 cellAt9)

section \<open>Properties of the arithmetic\<close>

lemma overflowAt_pos: "0 < overflowAt"
proof -
  have "(2::real) ^ 970 < 2 ^ 1024" by (rule power_strict_increasing) simp_all
  then show ?thesis by (simp add: overflowAt_def)
qed

lemma overflowAt_big: "1000000 < overflowAt"
  unfolding overflowAt_def by simp

lemma overflowAt_small: "overflowAt \<le> 2 * 10 ^ 308"
  unfolding overflowAt_def by simp

lemma overflowAt_half: "2 ^ 1023 < overflowAt"
  unfolding overflowAt_def by simp

lemma number_Fin: "\<bar>x\<bar> < overflowAt \<Longrightarrow> number x = Some (Fin x)"
  by (auto simp: number_def)

lemma number_small: "\<bar>x\<bar> \<le> 1000000 \<Longrightarrow> number x = Some (Fin x)"
  using overflowAt_big by (intro number_Fin) simp

lemma clamp_range:
  "s \<noteq> None \<Longrightarrow>
   \<exists>x. mathMax (Some (Fin (- 90))) (mathMin (Some (Fin 90)) s) = Some (Fin x) \<and> - 90 \<le> x \<and> x \<le> 90"
proof -
  assume "s \<noteq> None"
  then obtain a where s: "s = Some a" by auto
  show ?thesis by (cases a) (simp_all add: s min_def max_def)
qed

section \<open>The claims about the linear evaluator\<close>

lemma addWeighted_finite:
  "\<forall>f\<in>set fs. 0 \<le> f \<and> f \<le> F \<Longrightarrow> \<forall>w\<in>set ws. \<exists>x. w = Some (Fin x) \<and> \<bar>x\<bar> \<le> M \<Longrightarrow>
   0 \<le> F \<Longrightarrow> 0 \<le> M \<Longrightarrow> \<bar>s\<bar> + real (length fs) * (F * M) < overflowAt \<Longrightarrow>
   \<exists>x. addWeighted (Some (Fin s)) fs ws = Some (Fin x)"
proof (induction fs arbitrary: ws s)
  case Nil
  then show ?case by simp
next
  case (Cons f fs)
  show ?case
  proof (cases ws)
    case Nil
    then show ?thesis by simp
  next
    case (Cons w ws')
    with Cons.prems(2) obtain x where x: "w = Some (Fin x)" "\<bar>x\<bar> \<le> M" by auto
    from Cons.prems(1) have f: "0 \<le> f" "f \<le> F" by simp_all
    have FM: "0 \<le> F * M" using Cons.prems(3,4) by simp
    have p: "\<bar>f * x\<bar> \<le> F * M"
      unfolding abs_mult using f x(2) Cons.prems(3,4) by (intro mult_mono) simp_all
    have lenFM: "0 \<le> real (length fs) * (F * M)" using FM by simp
    have tot: "\<bar>s\<bar> + F * M + real (length fs) * (F * M) < overflowAt"
      using Cons.prems(5) by (simp add: algebra_simps)
    have p1: "\<bar>f * x\<bar> < overflowAt" using p tot lenFM by linarith
    have s1: "\<bar>s + f * x\<bar> < overflowAt" using p tot lenFM by linarith
    have step: "jsAdd (Some (Fin s)) (jsMul (Some (Fin f)) w) = Some (Fin (s + f * x))"
      using x(1) p1 s1 by (simp add: number_Fin)
    have bound: "\<bar>s + f * x\<bar> + real (length fs) * (F * M) < overflowAt"
      using p tot by linarith
    from Cons.prems(1,2) Cons have a: "\<forall>f\<in>set fs. 0 \<le> f \<and> f \<le> F"
      and b: "\<forall>w\<in>set ws'. \<exists>x. w = Some (Fin x) \<and> \<bar>x\<bar> \<le> M" by simp_all
    from Cons.IH[OF a b Cons.prems(3,4) bound] step Cons show ?thesis by simp
  qed
qed

lemma almostWin_bound:
  "fst (foldl (almostWinStep board) st ls) \<le> fst st + length ls
   \<and> snd (foldl (almostWinStep board) st ls) \<le> snd st + length ls"
proof (induction ls arbitrary: st)
  case Nil
  show ?case by simp
next
  case (Cons l ls)
  have "fst (almostWinStep board st l) \<le> fst st + 1 \<and> snd (almostWinStep board st l) \<le> snd st + 1"
    by (cases st) (simp add: almostWinStep_def Let_def)
  with Cons[of "almostWinStep board st l"] show ?case by simp
qed

lemma features_bound:
  "\<forall>f\<in>set (extractDatasetFeatures board player). 0 \<le> f \<and> f \<le> real (max 8 (length board))"
proof -
  obtain xa oa where st: "foldl (almostWinStep board) (0, 0) lines = (xa, oa)"
    by (cases "foldl (almostWinStep board) (0, 0) lines")
  from almostWin_bound[of board "(0, 0)" lines] st have "xa \<le> 8" "oa \<le> 8"
    by (simp_all add: lines_def)
  moreover have "countOf c board \<le> length board" for c by (simp add: countOf_def)
  moreover have "length (filter (\<lambda>i. cellAt board i = Mk MarkX) corners) \<le> 4"
    using length_filter_le[of "\<lambda>i. cellAt board i = Mk MarkX" corners] by (simp add: corners_def)
  ultimately show ?thesis
    by (auto simp: extractDatasetFeatures_def st le_max_iff_disj)
qed

lemma features_length: "length (extractDatasetFeatures board player) = 6"
  by (cases "foldl (almostWinStep board) (0, 0) lines") (simp add: extractDatasetFeatures_def)

lemma flipped_set: "length fs = 6 \<Longrightarrow> set (flipped fs) = set fs \<and> length (flipped fs) = 6"
proof -
  assume "length fs = 6"
  then obtain f0 f1 f2 f3 f4 f5 where "fs = [f0, f1, f2, f3, f4, f5]"
    by (auto simp: length_Suc_conv numeral_eq_Suc)
  then show ?thesis by auto
qed

lemma mlScore_finite:
  assumes b: "bias W = Some (Fin b)" "\<bar>b\<bar> \<le> M"
    and w: "\<forall>w\<in>set (weights W). \<exists>x. w = Some (Fin x) \<and> \<bar>x\<bar> \<le> M"
    and lim: "M * (1 + 6 * real (max 8 (length board))) < overflowAt"
  shows "\<exists>x. mlScore W board player = Some (Fin x)"
proof -
  let ?F = "real (max 8 (length board))"
  let ?fs = "extractDatasetFeatures board player"
  have M: "0 \<le> M" using b(2) by simp
  have F: "0 \<le> ?F" by simp
  have "\<bar>b\<bar> + 6 * (?F * M) \<le> M * (1 + 6 * ?F)" using b(2) by (simp add: algebra_simps)
  with lim have tot: "\<bar>b\<bar> + real 6 * (?F * M) < overflowAt" by simp
  have 1: "\<exists>x. addWeighted (Some (Fin b)) (extractDatasetFeatures board p) (weights W) = Some (Fin x)"
    for p
    using addWeighted_finite[OF features_bound w F M, of b p] tot
    by (simp add: features_length)
  have fl: "\<forall>f\<in>set (flipped ?fs). 0 \<le> f \<and> f \<le> ?F"
    using features_bound[of board player] flipped_set[OF features_length, of board player] by simp
  have 2: "\<exists>x. addWeighted (Some (Fin b)) (flipped ?fs) (weights W) = Some (Fin x)"
    using addWeighted_finite[OF fl w F M, of b] tot
      flipped_set[OF features_length, of board player] by simp
  from 1 2 show ?thesis by (simp add: mlScore_def Let_def b(1))
qed

lemma mlEvaluate_nan_weight:
  "\<not> terminal (isTerminal [Mk MarkX, Mk MarkX, Null, Mk MarkO, Mk MarkO, Null, Null, Null, Null])"
  "mlEvaluate \<lparr>bias = Some (Fin 0.5),
                weights = [None, Some (Fin (- 2.5)), Some (Fin 18), Some (Fin (- 22)),
                           Some (Fin 6), Some (Fin 3.5)]\<rparr>
      [Mk MarkX, Mk MarkX, Null, Mk MarkO, Mk MarkO, Null, Null, Null, Null] MarkX = None"
proof -
  let ?B = "[Mk MarkX, Mk MarkX, Null, Mk MarkO, Mk MarkO, Null, Null, Null, Null]"
  show nt: "\<not> terminal (isTerminal ?B)" by (simp add: boardRules)
  have f: "extractDatasetFeatures ?B MarkX = [2, 2, 1, 1, 0, 1]"
    by (simp add: extractDatasetFeatures_def almostWinStep_def lines_def lineValues_def cellAt9
          countOf_def corners_def)
  from nt f show "mlEvaluate \<lparr>bias = Some (Fin 0.5),
                weights = [None, Some (Fin (- 2.5)), Some (Fin 18), Some (Fin (- 22)),
                           Some (Fin 6), Some (Fin 3.5)]\<rparr> ?B MarkX = None"
    by (simp add: mlEvaluate_def mlScore_def Let_def)
qed

lemma mlEvaluate_overflow:
  assumes "0 < a" and "overflowAt \<le> 2 * a"
  shows "mlEvaluate \<lparr>bias = Some (Fin 0.5),
                weights = [Some (Fin a), Some (Fin (- a)), Some (Fin 18), Some (Fin (- 22)),
                           Some (Fin 6), Some (Fin 3.5)]\<rparr>
      [Mk MarkX, Mk MarkX, Null, Mk MarkO, Mk MarkO, Null, Null, Null, Null] MarkX = None"
proof -
  let ?B = "[Mk MarkX, Mk MarkX, Null, Mk MarkO, Mk MarkO, Null, Null, Null, Null]"
  have nt: "\<not> terminal (isTerminal ?B)" by (simp add: boardRules)
  have f: "extractDatasetFeatures ?B MarkX = [2, 2, 1, 1, 0, 1]"
    by (simp add: extractDatasetFeatures_def almostWinStep_def lines_def lineValues_def cellAt9
          countOf_def corners_def)
  have big: "number (2 * a) = Some PosInf" "number (- (2 * a)) = Some NegInf"
    using assms overflowAt_pos by (simp_all add: number_def)
  from nt f big show ?thesis
    by (simp add: mlEvaluate_def mlScore_def Let_def)
qed

text \<open>
  C5, as stated, fails: \<open>Math.min\<close> and \<open>Math.max\<close> return \<open>NaN\<close> for a \<open>NaN\<close> argument.
  On a non-terminal board a weight that is \<open>NaN\<close> gives the score \<open>NaN\<close>, and so do
  finite weights whose products overflow to opposite infinities; the value returned is
  \<open>NaN\<close>, which is not between -90 and 90.
\<close>

theorem mlEvaluate_not_a_number_counterexample:
  "\<not> terminal (isTerminal [Mk MarkX, Mk MarkX, Null, Mk MarkO, Mk MarkO, Null, Null, Null, Null])
   \<and> mlEvaluate \<lparr>bias = Some (Fin 0.5),
                  weights = [None, Some (Fin (- 2.5)), Some (Fin 18), Some (Fin (- 22)),
                             Some (Fin 6), Some (Fin 3.5)]\<rparr>
        [Mk MarkX, Mk MarkX, Null, Mk MarkO, Mk MarkO, Null, Null, Null, Null] MarkX = None
   \<and> mlEvaluate \<lparr>bias = Some (Fin 0.5),
                  weights = [Some (Fin (10 ^ 308)), Some (Fin (- (10 ^ 308))), Some (Fin 18),
                             Some (Fin (- 22)), Some (Fin 6), Some (Fin 3.5)]\<rparr>
        [Mk MarkX, Mk MarkX, Null, Mk MarkO, Mk MarkO, Null, Null, Null, Null] MarkX = None"
proof -
  have p: "(0::real) < 10 ^ 308" by simp
  note o = mlEvaluate_overflow[OF p overflowAt_small]
  from o mlEvaluate_nan_weight show ?thesis by blast
qed

text \<open>
  C5, amended. On a non-terminal board, whenever the weighted sum that \<open>mlEvaluate\<close>
  computes is a number or an infinity, the value returned is a number between -90 and 90,
  so it lies strictly between the terminal scores depth - 100 and 100 - depth of the search
  at every depth below 10, the depths a search of a board of nine cells can reach. The sum
  is a finite number whenever the bias and the weights are finite numbers of magnitude at
  most \<open>M\<close> and \<open>M * (1 + 6 * max 8 (length board))\<close> is at most \<open>2^1023\<close>, half the
  overflow threshold: no product and no partial sum overflows then. The variant with the
  constant weight table always returns a value between -90 and 90.
\<close>

theorem mlEvaluate_clamped:
  assumes "\<not> terminal (isTerminal board)"
  shows "(mlScore MODEL_WEIGHTS board player \<noteq> None \<longrightarrow>
            (\<exists>x. mlEvaluate MODEL_WEIGHTS board player = Some (Fin x) \<and> - 90 \<le> x \<and> x \<le> 90
                 \<and> (depth < 10 \<longrightarrow> real depth - 100 < x \<and> x < 100 - real depth)))
       \<and> (bias MODEL_WEIGHTS = Some (Fin b) \<and> weights MODEL_WEIGHTS = map (\<lambda>w. Some (Fin w)) ws
            \<and> \<bar>b\<bar> \<le> M \<and> (\<forall>w\<in>set ws. \<bar>w\<bar> \<le> M)
            \<and> M * (1 + 6 * real (max 8 (length board))) \<le> 2 ^ 1023
          \<longrightarrow> mlScore MODEL_WEIGHTS board player \<noteq> None)
       \<and> - 90 \<le> mlEvaluateTrained board player \<and> mlEvaluateTrained board player \<le> 90
       \<and> (depth < 10 \<longrightarrow>
            real depth - 100 < mlEvaluateTrained board player
            \<and> mlEvaluateTrained board player < 100 - real depth)"
proof -
  have d: "real depth < 10" if "depth < 10" using that by simp
  have 1: "\<exists>x. mlEvaluate MODEL_WEIGHTS board player = Some (Fin x) \<and> - 90 \<le> x \<and> x \<le> 90
                 \<and> (depth < 10 \<longrightarrow> real depth - 100 < x \<and> x < 100 - real depth)"
    if s: "mlScore MODEL_WEIGHTS board player \<noteq> None"
  proof -
    from clamp_range[OF s] obtain x where
      x: "mathMax (Some (Fin (- 90))) (mathMin (Some (Fin 90)) (mlScore MODEL_WEIGHTS board player))
          = Some (Fin x)" "- 90 \<le> x" "x \<le> 90"
      by blast
    from x(1) assms have "mlEvaluate MODEL_WEIGHTS board player = Some (Fin x)"
      by (simp add: mlEvaluate_def Let_def)
    with x(2,3) d show ?thesis by auto
  qed
  have 2: "mlScore MODEL_WEIGHTS board player \<noteq> None"
    if h: "bias MODEL_WEIGHTS = Some (Fin b) \<and> weights MODEL_WEIGHTS = map (\<lambda>w. Some (Fin w)) ws
            \<and> \<bar>b\<bar> \<le> M \<and> (\<forall>w\<in>set ws. \<bar>w\<bar> \<le> M)
            \<and> M * (1 + 6 * real (max 8 (length board))) \<le> 2 ^ 1023"
  proof -
    from h have w: "\<forall>w\<in>set (weights MODEL_WEIGHTS). \<exists>x. w = Some (Fin x) \<and> \<bar>x\<bar> \<le> M"
      by auto
    from h overflowAt_half have "bias MODEL_WEIGHTS = Some (Fin b)" "\<bar>b\<bar> \<le> M"
      "M * (1 + 6 * real (max 8 (length board))) < overflowAt" by simp_all
    from mlScore_finite[OF this(1,2) w this(3), of player] show ?thesis by auto
  qed
  have 3: "- 90 \<le> mlEvaluateTrained board player \<and> mlEvaluateTrained board player \<le> 90"
    using assms by (simp add: mlEvaluateTrained_def Let_def)
  from 1 2 3 d show ?thesis by auto
qed

theorem mlEvaluate_clamped_witness:
  "\<not> terminal (isTerminal [Mk MarkX, Mk MarkX, Null, Mk MarkO, Null, Null, Null, Null, Null])
   \<and> mlScore \<lparr>bias = Some (Fin 0.5),
               weights = [Some (Fin 2.5), Some (Fin (- 2.5)), Some (Fin 18), Some (Fin (- 22)),
                          Some (Fin 6), Some (Fin 3.5)]\<rparr>
        [Mk MarkX, Mk MarkX, Null, Mk MarkO, Null, Null, Null, Null, Null] MarkX \<noteq> None
   \<and> (\<exists>x. mlEvaluate \<lparr>bias = Some (Fin 0.5),
               weights = [Some (Fin 2.5), Some (Fin (- 2.5)), Some (Fin 18), Some (Fin (- 22)),
                          Some (Fin 6), Some (Fin 3.5)]\<rparr>
        [Mk MarkX, Mk MarkX, Null, Mk MarkO, Null, Null, Null, Null, Null] MarkX = Some (Fin x)
        \<and> - 90 \<le> x \<and> x \<le> 90 \<and> x < 100 - real 8)
   \<and> mlEvaluateTrained [Mk MarkX, Mk MarkX, Null, Mk MarkO, Null, Null, Null, Null, Null] MarkX
        < 100 - real 8"
proof -
  let ?B = "[Mk MarkX, Mk MarkX, Null, Mk MarkO, Null, Null, Null, Null, Null]"
  let ?W = "\<lparr>bias = Some (Fin 0.5),
               weights = [Some (Fin 2.5), Some (Fin (- 2.5)), Some (Fin 18), Some (Fin (- 22)),
                          Some (Fin 6), Some (Fin 3.5)]\<rparr>"
  have nt: "\<not> terminal (isTerminal ?B)" by (simp add: boardRules)
  have lim: "22 * (1 + 6 * real (max 8 (length ?B))) \<le> 2 ^ 1023"
    by simp
  let ?ws = "[2.5, - 2.5, 18, - 22, 6, 3.5] :: real list"
  have fin: "bias ?W = Some (Fin 0.5) \<and> weights ?W = map (\<lambda>w. Some (Fin w)) ?ws
            \<and> \<bar>0.5 :: real\<bar> \<le> 22 \<and> (\<forall>w\<in>set ?ws. \<bar>w\<bar> \<le> 22)"
    by simp
  from fin lim mlEvaluate_clamped[OF nt, of ?W MarkX 8 "0.5" ?ws 22]
  have s: "mlScore ?W ?B MarkX \<noteq> None" by blast
  with nt mlEvaluate_clamped[OF nt, of ?W MarkX 8 "0.5" ?ws 22] show ?thesis by auto
qed

text \<open>
  C6, as stated, fails for \<open>adjustFeaturesForPlayer\<close>: on the board whose only mark is an
  X in the centre, component 4 of the vector adjusted for O is 0 while component 4 of the
  X-perspective vector is 1.
\<close>

theorem adjustFeatures_center_counterexample:
  "adjustFeaturesForPlayer
     (extractDatasetFeatures [Null, Null, Null, Null, Mk MarkX, Null, Null, Null, Null] MarkO) MarkO ! 4
   \<noteq> extractDatasetFeatures [Null, Null, Null, Null, Mk MarkX, Null, Null, Null, Null] MarkO ! 4"
  by (simp add: extractDatasetFeatures_def almostWinStep_def lines_def lineValues_def cellAt9
        countOf_def corners_def)

text \<open>
  C6, amended. For every board, with \<open>f\<close> the dataset-format vector: the flip built inside
  \<open>mlEvaluate\<close> swaps components 0 and 1, swaps 2 and 3 and passes 4 and 5 through, and it
  is the vector \<open>mlEvaluate\<close> scores for O on a non-terminal board. \<open>adjustFeaturesForPlayer\<close>
  for O swaps 0 and 1, swaps 2 and 3 and passes 5 through, but sets component 4 to 0 when
  X holds the centre, else to 1 when there is at least one mark on the board, else to 0;
  for X it returns the vector unchanged.
\<close>

theorem perspective_flip_components:
  "length (extractDatasetFeatures board player) = 6
   \<and> flipped (extractDatasetFeatures board player) =
       [extractDatasetFeatures board player ! 1, extractDatasetFeatures board player ! 0,
        extractDatasetFeatures board player ! 3, extractDatasetFeatures board player ! 2,
        extractDatasetFeatures board player ! 4, extractDatasetFeatures board player ! 5]
   \<and> adjustFeaturesForPlayer (extractDatasetFeatures board player) MarkO =
       [extractDatasetFeatures board player ! 1, extractDatasetFeatures board player ! 0,
        extractDatasetFeatures board player ! 3, extractDatasetFeatures board player ! 2,
        (if cellAt board 4 = Mk MarkX then 0
         else if extractDatasetFeatures board player ! 0 + extractDatasetFeatures board player ! 1 \<ge> 1
              then 1 else 0),
        extractDatasetFeatures board player ! 5]
   \<and> adjustFeaturesForPlayer (extractDatasetFeatures board player) MarkX =
       extractDatasetFeatures board player
   \<and> extractDatasetFeatures board player ! 4 = (if cellAt board 4 = Mk MarkX then 1 else 0)
   \<and> (\<not> terminal (isTerminal board) \<longrightarrow>
        mlEvaluate MODEL_WEIGHTS board MarkO =
          mathMax (Some (Fin (- 90)))
            (mathMin (Some (Fin 90))
               (addWeighted (bias MODEL_WEIGHTS)
                  (flipped (extractDatasetFeatures board MarkO))
                  (weights MODEL_WEIGHTS))))"
  by (cases "foldl (almostWinStep board) (0, 0) lines")
     (simp add: extractDatasetFeatures_def mlEvaluate_def mlScore_def Let_def)

theorem perspective_flip_components_witness:
  "\<not> terminal (isTerminal [Mk MarkO, Null, Null, Null, Mk MarkX, Null, Null, Null, Mk MarkX])
   \<and> extractDatasetFeatures [Mk MarkO, Null, Null, Null, Mk MarkX, Null, Null, Null, Mk MarkX] MarkO
       = [2, 1, 0, 0, 1, 1]
   \<and> flipped (extractDatasetFeatures [Mk MarkO, Null, Null, Null, Mk MarkX, Null, Null, Null, Mk MarkX] MarkO)
       = [1, 2, 0, 0, 1, 1]
   \<and> adjustFeaturesForPlayer
        (extractDatasetFeatures [Mk MarkO, Null, Null, Null, Mk MarkX, Null, Null, Null, Mk MarkX] MarkO) MarkO
       = [1, 2, 0, 0, 0, 1]
   \<and> mlEvaluate \<lparr>bias = Some (Fin 0.5),
                  weights = [Some (Fin 2.5), Some (Fin (- 2.5)), Some (Fin 18), Some (Fin (- 22)),
                             Some (Fin 6), Some (Fin 3.5)]\<rparr>
        [Mk MarkO, Null, Null, Null, Mk MarkX, Null, Null, Null, Mk MarkX] MarkO = Some (Fin 7.5)"
proof -
  let ?B = "[Mk MarkO, Null, Null, Null, Mk MarkX, Null, Null, Null, Mk MarkX]"
  let ?W = "\<lparr>bias = Some (Fin 0.5),
               weights = [Some (Fin 2.5), Some (Fin (- 2.5)), Some (Fin 18), Some (Fin (- 22)),
                          Some (Fin 6), Some (Fin 3.5)]\<rparr>"
  have nt: "\<not> terminal (isTerminal ?B)" by (simp add: boardRules)
  have f: "extractDatasetFeatures ?B MarkO = [2, 1, 0, 0, 1, 1]"
    by (simp add: extractDatasetFeatures_def almostWinStep_def lines_def lineValues_def cellAt9
          countOf_def corners_def)
  from nt f perspective_flip_components[of ?B MarkO ?W] show ?thesis
    by (simp add: cellAt9 number_small)
qed

section \<open>The claim about the trainer\<close>

lemma predictRow_sum: "predictRow ws row n = ws ! 0 + (\<Sum>j = 0..<n. ws ! (j + 1) * row ! j)"
  by (induction n) (simp_all add: predictRow_def)

lemma gradFold:
  "k < length g \<Longrightarrow>
   length (foldl (\<lambda>g j. g[j + 1 := g ! (j + 1) + e * row ! j]) g [0..<k]) = length g \<and>
   (\<forall>t<length g.
      foldl (\<lambda>g j. g[j + 1 := g ! (j + 1) + e * row ! j]) g [0..<k] ! t =
        (if 0 < t \<and> t \<le> k then g ! t + e * row ! (t - 1) else g ! t))"
proof (induction k)
  case 0
  show ?case by simp
next
  case (Suc k)
  then have "k < length g" by simp
  from Suc.IH[OF this] Suc.prems show ?case
    by (auto simp: nth_list_update)
qed

lemma sampleFold:
  "case foldl (sampleStep X y ws n) (0, replicate (n + 1) 0) [0..<m] of (L, G) \<Rightarrow>
     L = (\<Sum>i = 0..<m. (predictRow ws (X ! i) n - y ! i) * (predictRow ws (X ! i) n - y ! i)) \<and>
     length G = n + 1 \<and>
     G ! 0 = (\<Sum>i = 0..<m. (predictRow ws (X ! i) n - y ! i)) \<and>
     (\<forall>j<n. G ! (j + 1) = (\<Sum>i = 0..<m. (predictRow ws (X ! i) n - y ! i) * X ! i ! j))"
proof (induction m)
  case 0
  show ?case by simp
next
  case (Suc m)
  obtain L G where st: "foldl (sampleStep X y ws n) (0, replicate (n + 1) 0) [0..<m] = (L, G)"
    by (cases "foldl (sampleStep X y ws n) (0, replicate (n + 1) 0) [0..<m]")
  with Suc.IH have ih:
     "L = (\<Sum>i = 0..<m. (predictRow ws (X ! i) n - y ! i) * (predictRow ws (X ! i) n - y ! i))"
     "length G = n + 1"
     "G ! 0 = (\<Sum>i = 0..<m. (predictRow ws (X ! i) n - y ! i))"
     "\<forall>j<n. G ! (j + 1) = (\<Sum>i = 0..<m. (predictRow ws (X ! i) n - y ! i) * X ! i ! j)"
    by simp_all
  let ?e = "predictRow ws (X ! m) n - y ! m"
  let ?G0 = "G[0 := G ! 0 + ?e]"
  let ?G' = "foldl (\<lambda>g j. g[j + 1 := g ! (j + 1) + ?e * X ! m ! j]) ?G0 [0..<n]"
  have len: "n < length ?G0" using ih(2) by simp
  note gf = gradFold[OF len, of ?e "X ! m"]
  have step: "foldl (sampleStep X y ws n) (0, replicate (n + 1) 0) [0..<Suc m] = (L + ?e * ?e, ?G')"
    using st by (simp add: sampleStep_def Let_def)
  have a: "length ?G' = n + 1" using gf ih(2) by simp
  have b: "?G' ! 0 = (\<Sum>i = 0..<Suc m. (predictRow ws (X ! i) n - y ! i))"
    using gf ih(2,3) by simp
  have c: "?G' ! (j + 1) = (\<Sum>i = 0..<Suc m. (predictRow ws (X ! i) n - y ! i) * X ! i ! j)"
    if "j < n" for j
    using gf ih(2,4) that by simp
  show ?case unfolding step using ih(1) a b c by simp
qed

lemma updateFold:
  "k \<le> length ws \<Longrightarrow>
   length (foldl (\<lambda>w j. let gradient = gradients ! j / real m;
                          regTerm = (if j > 0 then reg * w ! j else 0)
                      in w[j := w ! j - lr * (gradient + regTerm)]) ws [0..<k]) = length ws \<and>
   (\<forall>t<length ws.
      foldl (\<lambda>w j. let gradient = gradients ! j / real m;
                          regTerm = (if j > 0 then reg * w ! j else 0)
                      in w[j := w ! j - lr * (gradient + regTerm)]) ws [0..<k] ! t =
      (if t < k then ws ! t - lr * (gradients ! t / real m + (if t > 0 then reg * ws ! t else 0))
       else ws ! t))"
proof (induction k)
  case 0
  show ?case by simp
next
  case (Suc k)
  then have "k \<le> length ws" by simp
  from Suc.IH[OF this] Suc.prems show ?case
    by (auto simp: nth_list_update Let_def)
qed

lemma updateWeights_nth:
  "length (updateWeights lr reg m gradients ws) = length ws"
  "t < length ws \<Longrightarrow>
   updateWeights lr reg m gradients ws ! t =
     ws ! t - lr * (gradients ! t / real m + (if t > 0 then reg * ws ! t else 0))"
  using updateFold[where k = "length ws" and ws = ws and gradients = gradients and m = m and reg = reg and lr = lr]
  by (simp_all add: updateWeights_def)

lemma sampleError_eq: "sampleError X y ws i = predictRow ws (X ! i) (length (X ! 0)) - y ! i"
  by (simp add: sampleError_def predictRow_sum)

lemma epochStep_weights:
  assumes "length ws = length (X ! 0) + 1"
  shows "fst (epochStep X y lr reg (ws, h) epoch) = gradientDescentStep X y lr reg ws"
    and "losses (snd (epochStep X y lr reg (ws, h) epoch)) =
           losses h @ [(\<Sum>i = 0..<length X. sampleError X y ws i * sampleError X y ws i) / real (length X)]"
proof -
  let ?n = "length (X ! 0)"
  let ?m = "length X"
  obtain L G where st: "foldl (sampleStep X y ws ?n) (0, replicate (?n + 1) 0) [0..<?m] = (L, G)"
    by (cases "foldl (sampleStep X y ws ?n) (0, replicate (?n + 1) 0) [0..<?m]")
  with sampleFold[where X = X and y = y and ws = ws and n = ?n and m = ?m] have sf:
     "L = (\<Sum>i = 0..<?m. sampleError X y ws i * sampleError X y ws i)"
     "length G = ?n + 1"
     "G ! 0 = (\<Sum>i = 0..<?m. sampleError X y ws i)"
     "\<forall>j<?n. G ! (j + 1) = (\<Sum>i = 0..<?m. sampleError X y ws i * X ! i ! j)"
    by (simp_all add: sampleError_eq)
  have w: "fst (epochStep X y lr reg (ws, h) epoch) = updateWeights lr reg ?m G ws"
    using st by (simp add: epochStep_def Let_def)
  show "fst (epochStep X y lr reg (ws, h) epoch) = gradientDescentStep X y lr reg ws"
    unfolding w
  proof (rule nth_equalityI)
    show "length (updateWeights lr reg ?m G ws) = length (gradientDescentStep X y lr reg ws)"
      using assms by (simp add: updateWeights_nth gradientDescentStep_def)
  next
    fix t assume "t < length (updateWeights lr reg ?m G ws)"
    then have t: "t < ?n + 1" using assms by (simp add: updateWeights_nth)
    show "updateWeights lr reg ?m G ws ! t = gradientDescentStep X y lr reg ws ! t"
    proof (cases t)
      case 0
      then show ?thesis using assms sf(3)
        by (simp add: updateWeights_nth gradientDescentStep_def)
    next
      case (Suc j)
      with t have j: "j < ?n" by simp
      with sf(4) have "G ! Suc j = (\<Sum>i = 0..<?m. sampleError X y ws i * X ! i ! j)" by simp
      then show ?thesis using assms Suc j
        by (simp add: updateWeights_nth gradientDescentStep_def del: upt_Suc)
    qed
  qed
  show "losses (snd (epochStep X y lr reg (ws, h) epoch)) =
           losses h @ [(\<Sum>i = 0..<length X. sampleError X y ws i * sampleError X y ws i) / real (length X)]"
    using sf(1) st by (simp add: epochStep_def Let_def)
qed

lemma length_gradientDescentStep: "length (gradientDescentStep X y lr reg ws) = length (X ! 0) + 1"
  by (simp add: gradientDescentStep_def)

lemma epochs_length:
  "length ws0 = length (X ! 0) + 1 \<Longrightarrow>
   length (fst (foldl (epochStep X y lr reg) (ws0, h0) [0..<k])) = length (X ! 0) + 1"
proof (induction k)
  case 0
  then show ?case by simp
next
  case (Suc k)
  obtain ws h where st: "foldl (epochStep X y lr reg) (ws0, h0) [0..<k] = (ws, h)"
    by (cases "foldl (epochStep X y lr reg) (ws0, h0) [0..<k]")
  with Suc have "length ws = length (X ! 0) + 1" by simp
  from epochStep_weights(1)[OF this, of y lr reg h k] show ?case
    by (simp add: st length_gradientDescentStep)
qed

lemma trainLinearModel_epochs:
  assumes "X \<noteq> []"
  shows "trainLinearModel random X y (options\<lparr>epochs := Some k\<rparr>) =
     (let st = foldl (epochStep X y
                        (case learningRate options of None \<Rightarrow> 0.01 | Some v \<Rightarrow> v)
                        (case regularization options of None \<Rightarrow> 0.001 | Some v \<Rightarrow> v))
                 (map (\<lambda>k. random k * 0.01) [0..<length (X ! 0) + 1], \<lparr>losses = [], accuracies = []\<rparr>)
                 [0..<k]
      in Inr \<lparr>trained_weights = fst st, trained_bias = fst st ! 0, featureWeights = drop 1 (fst st),
               history = snd st\<rparr>)"
proof -
  from assms obtain row0 rest where X: "X = row0 # rest" by (cases X) auto
  show ?thesis
    by (simp add: trainLinearModel_def X Let_def split: prod.splits del: upt_Suc)
qed

text \<open>
  C7. For a feature matrix with rows of equal length and one label per row, every epoch of
  \<open>trainLinearModel\<close> turns the weights \<open>before\<close> into the weights \<open>after\<close> by one step
  of full-batch gradient descent: with the error of sample \<open>i\<close> being the linear
  prediction minus the label, taken for all \<open>m\<close> samples with the weights before the
  update, the bias moves by the learning rate times the summed error over \<open>m\<close>, and
  weight \<open>j\<close> by the learning rate times the sum of error times feature \<open>j\<close> over \<open>m\<close>
  plus the regularisation factor times the weight; the bias carries no such term. The loss
  recorded for the epoch is the mean squared error. Numbers are real numbers here; the
  epoch from \<open>k\<close> to \<open>k + 1\<close> is the difference between training for \<open>k\<close> and for
  \<open>k + 1\<close> epochs.
\<close>

theorem trainLinearModel_epoch_update:
  assumes "X \<noteq> []" and "\<forall>row\<in>set X. length row = length (hd X)" and "length y = length X"
  shows "\<exists>before after.
     trainLinearModel random X y (options\<lparr>epochs := Some k\<rparr>) = Inr before
     \<and> trainLinearModel random X y (options\<lparr>epochs := Some (Suc k)\<rparr>) = Inr after
     \<and> length (trained_weights before) = length (hd X) + 1
     \<and> length (trained_weights after) = length (hd X) + 1
     \<and> trained_weights after =
         gradientDescentStep X y
           (case learningRate options of None \<Rightarrow> 0.01 | Some v \<Rightarrow> v)
           (case regularization options of None \<Rightarrow> 0.001 | Some v \<Rightarrow> v)
           (trained_weights before)
     \<and> trained_weights after ! 0 =
         trained_weights before ! 0
         - (case learningRate options of None \<Rightarrow> 0.01 | Some v \<Rightarrow> v)
           * ((\<Sum>i = 0..<length X. sampleError X y (trained_weights before) i) / real (length X))
     \<and> (\<forall>j<length (hd X).
           trained_weights after ! (j + 1) =
             trained_weights before ! (j + 1)
             - (case learningRate options of None \<Rightarrow> 0.01 | Some v \<Rightarrow> v)
               * ((\<Sum>i = 0..<length X. sampleError X y (trained_weights before) i * X ! i ! j)
                    / real (length X)
                  + (case regularization options of None \<Rightarrow> 0.001 | Some v \<Rightarrow> v)
                    * trained_weights before ! (j + 1)))
     \<and> (\<forall>i<length X.
           sampleError X y (trained_weights before) i =
             (trained_weights before ! 0
              + (\<Sum>j = 0..<length (hd X). trained_weights before ! (j + 1) * X ! i ! j)) - y ! i)
     \<and> trained_bias after = trained_weights after ! 0
     \<and> featureWeights after = tl (trained_weights after)
     \<and> losses (history after) =
         losses (history before)
         @ [(\<Sum>i = 0..<length X. sampleError X y (trained_weights before) i
                                  * sampleError X y (trained_weights before) i) / real (length X)]"
proof -
  let ?lr = "case learningRate options of None \<Rightarrow> 0.01 | Some v \<Rightarrow> v"
  let ?reg = "case regularization options of None \<Rightarrow> 0.001 | Some v \<Rightarrow> v"
  let ?ws0 = "map (\<lambda>k. random k * 0.01) [0..<length (X ! 0) + 1]"
  let ?h0 = "\<lparr>losses = [], accuracies = []\<rparr>"
  let ?S = "\<lambda>k. foldl (epochStep X y ?lr ?reg) (?ws0, ?h0) [0..<k]"
  from assms(1) have hd0: "hd X = X ! 0" by (simp add: hd_conv_nth)
  obtain ws h where st: "?S k = (ws, h)" by (cases "?S k")
  have len: "length ws = length (X ! 0) + 1"
    using epochs_length[of ?ws0 X y ?lr ?reg ?h0 k] st by simp
  have next_st: "?S (Suc k) = epochStep X y ?lr ?reg (ws, h) k"
    using st by simp
  let ?before = "\<lparr>trained_weights = ws, trained_bias = ws ! 0, featureWeights = drop 1 ws, history = h\<rparr>"
  let ?st' = "epochStep X y ?lr ?reg (ws, h) k"
  let ?after = "\<lparr>trained_weights = fst ?st', trained_bias = fst ?st' ! 0,
                  featureWeights = drop 1 (fst ?st'), history = snd ?st'\<rparr>"
  have b: "trainLinearModel random X y (options\<lparr>epochs := Some k\<rparr>) = Inr ?before"
    using st by (simp add: trainLinearModel_epochs[OF assms(1)] Let_def del: upt_Suc)
  have a: "trainLinearModel random X y (options\<lparr>epochs := Some (Suc k)\<rparr>) = Inr ?after"
    unfolding trainLinearModel_epochs[OF assms(1)] next_st Let_def by simp
  note ew = epochStep_weights[OF len, of y ?lr ?reg h k]
  have w: "fst ?st' = gradientDescentStep X y ?lr ?reg ws" by (rule ew(1))
  have w0: "fst ?st' ! 0 = ws ! 0 - ?lr * ((\<Sum>i = 0..<length X. sampleError X y ws i) / real (length X))"
    unfolding w by (simp add: gradientDescentStep_def)
  have wj: "fst ?st' ! (j + 1) = ws ! (j + 1)
             - ?lr * ((\<Sum>i = 0..<length X. sampleError X y ws i * X ! i ! j) / real (length X)
                  + ?reg * ws ! (j + 1))" if "j < length (hd X)" for j
    unfolding w using that by (simp add: gradientDescentStep_def hd0 del: upt_Suc)
  have se: "sampleError X y ws i = (ws ! 0 + (\<Sum>j = 0..<length (hd X). ws ! (j + 1) * X ! i ! j)) - y ! i" for i
    by (simp add: sampleError_def hd0)
  have la: "length (fst ?st') = length (hd X) + 1"
    unfolding w by (simp add: length_gradientDescentStep hd0)
  have "trainLinearModel random X y (options\<lparr>epochs := Some k\<rparr>) = Inr ?before
     \<and> trainLinearModel random X y (options\<lparr>epochs := Some (Suc k)\<rparr>) = Inr ?after
     \<and> length (trained_weights ?before) = length (hd X) + 1
     \<and> length (trained_weights ?after) = length (hd X) + 1
     \<and> trained_weights ?after = gradientDescentStep X y ?lr ?reg (trained_weights ?before)
     \<and> trained_weights ?after ! 0 =
         trained_weights ?before ! 0
         - ?lr * ((\<Sum>i = 0..<length X. sampleError X y (trained_weights ?before) i) / real (length X))
     \<and> (\<forall>j<length (hd X).
           trained_weights ?after ! (j + 1) =
             trained_weights ?before ! (j + 1)
             - ?lr * ((\<Sum>i = 0..<length X. sampleError X y (trained_weights ?before) i * X ! i ! j)
                    / real (length X)
                  + ?reg * trained_weights ?before ! (j + 1)))
     \<and> (\<forall>i<length X.
           sampleError X y (trained_weights ?before) i =
             (trained_weights ?before ! 0
              + (\<Sum>j = 0..<length (hd X). trained_weights ?before ! (j + 1) * X ! i ! j)) - y ! i)
     \<and> trained_bias ?after = trained_weights ?after ! 0
     \<and> featureWeights ?after = tl (trained_weights ?after)
     \<and> losses (history ?after) =
         losses (history ?before)
         @ [(\<Sum>i = 0..<length X. sampleError X y (trained_weights ?before) i
                                  * sampleError X y (trained_weights ?before) i) / real (length X)]"
    using a b len la w w0 wj se ew(2) by (simp add: hd0 drop_Suc)
  then show ?thesis by blast
qed

theorem trainLinearModel_epoch_update_witness:
  "\<exists>before after.
     trainLinearModel (\<lambda>k. 100) [[1], [2]] [1, - 1]
        \<lparr>learningRate = Some 0.5, epochs = Some 0, regularization = Some 0.1\<rparr> = Inr before
     \<and> trainLinearModel (\<lambda>k. 100) [[1], [2]] [1, - 1]
        \<lparr>learningRate = Some 0.5, epochs = Some 1, regularization = Some 0.1\<rparr> = Inr after
     \<and> trained_weights before = [1, 1]
     \<and> trained_weights after = [- 0.25, - 1.3]"
proof -
  let ?X = "[[1], [2]] :: real list list"
  let ?y = "[1, - 1] :: real list"
  let ?o = "\<lparr>learningRate = Some 0.5, epochs = None, regularization = Some 0.1\<rparr>"
  have h: "?X \<noteq> []" "\<forall>row\<in>set ?X. length row = length (hd ?X)" "length ?y = length ?X"
    by simp_all
  from trainLinearModel_epoch_update[OF h, where random = "\<lambda>k. 100" and options = ?o and k = 0]
  obtain before after where
    b: "trainLinearModel (\<lambda>k. 100) ?X ?y (?o\<lparr>epochs := Some 0\<rparr>) = Inr before" and
    a: "trainLinearModel (\<lambda>k. 100) ?X ?y (?o\<lparr>epochs := Some (Suc 0)\<rparr>) = Inr after" and
    w: "trained_weights after =
         gradientDescentStep ?X ?y
           (case learningRate ?o of None \<Rightarrow> 0.01 | Some v \<Rightarrow> v)
           (case regularization ?o of None \<Rightarrow> 0.001 | Some v \<Rightarrow> v)
           (trained_weights before)"
    by blast
  have wb: "trained_weights before = [1, 1]"
    using b by (auto simp: trainLinearModel_def Let_def upt_rec)
  have wa: "trained_weights after = [- 0.25, - 1.3]"
    unfolding w wb by (simp add: gradientDescentStep_def sampleError_def upt_rec)
  from a b wa wb show ?thesis by (intro exI[of _ before] exI[of _ after]) simp
qed

section \<open>The claim about normalisation\<close>

lemma rowFold:
  "length sample \<le> length lo \<Longrightarrow> length hi = length lo \<Longrightarrow>
   (case foldl minMaxCell (lo, hi) (zip sample [0..<length sample]) of (lo', hi') \<Rightarrow>
      length lo' = length lo \<and> length hi' = length lo \<and>
      (\<forall>j<length lo.
         lo' ! j = (if j < length sample then mathMin (lo ! j) (sample ! j) else lo ! j) \<and>
         hi' ! j = (if j < length sample then mathMax (hi ! j) (sample ! j) else hi ! j)))"
proof (induction sample rule: rev_induct)
  case Nil
  then show ?case by simp
next
  case (snoc x xs)
  obtain lo' hi' where st: "foldl minMaxCell (lo, hi) (zip xs [0..<length xs]) = (lo', hi')"
    by (cases "foldl minMaxCell (lo, hi) (zip xs [0..<length xs])")
  from snoc.prems have le: "length xs \<le> length lo" and k: "length xs < length lo" by simp_all
  from snoc.IH[OF le snoc.prems(2)] st
  have ih: "length lo' = length lo" "length hi' = length lo"
    "\<forall>j<length lo.
         lo' ! j = (if j < length xs then mathMin (lo ! j) (xs ! j) else lo ! j) \<and>
         hi' ! j = (if j < length xs then mathMax (hi ! j) (xs ! j) else hi ! j)"
    by simp_all
  have z: "zip (xs @ [x]) [0..<length (xs @ [x])] = zip xs [0..<length xs] @ [(x, length xs)]"
    by simp
  have "foldl minMaxCell (lo, hi) (zip (xs @ [x]) [0..<length (xs @ [x])]) =
        (lo'[length xs := mathMin (lo' ! length xs) x], hi'[length xs := mathMax (hi' ! length xs) x])"
    unfolding z using st ih k by (simp add: minMaxCell_def storeAt_def readAt_def)
  then show ?case using ih k snoc.prems
    by (auto simp: nth_list_update nth_append less_Suc_eq)
qed

lemma colInv_fold:
  "\<forall>row\<in>set seen. length row = n \<Longrightarrow>
   colInv n seen
     (foldl (\<lambda>st sample. foldl minMaxCell st (zip sample [0..<length sample]))
            (replicate n (Some PosInf), replicate n (Some NegInf))
            (map (map (\<lambda>v. Some (Fin v))) seen))"
proof (induction seen rule: rev_induct)
  case Nil
  show ?case by (simp add: colInv_def)
next
  case (snoc r rs)
  let ?st = "foldl (\<lambda>st sample. foldl minMaxCell st (zip sample [0..<length sample]))
            (replicate n (Some PosInf), replicate n (Some NegInf))
            (map (map (\<lambda>v. Some (Fin v))) rs)"
  let ?r = "map (\<lambda>v. Some (Fin v)) r"
  obtain lo hi where st: "?st = (lo, hi)" by (cases ?st)
  from snoc have inv: "colInv n rs (lo, hi)" and len: "length r = n" by (simp_all add: st)
  then have l: "length lo = n" "length hi = n" by (simp_all add: colInv_def)
  obtain lo' hi' where st': "foldl minMaxCell (lo, hi) (zip ?r [0..<length r]) = (lo', hi')"
    by (cases "foldl minMaxCell (lo, hi) (zip ?r [0..<length r])")
  from rowFold[of ?r lo hi] l len st'
  have new: "length lo' = n" "length hi' = n"
    "\<forall>j<n. lo' ! j = mathMin (lo ! j) (Some (Fin (r ! j))) \<and> hi' ! j = mathMax (hi ! j) (Some (Fin (r ! j)))"
    by simp_all
  have col: "\<exists>mn mx. lo' ! j = Some (Fin mn) \<and> hi' ! j = Some (Fin mx) \<and>
            (\<forall>row\<in>set (rs @ [r]). mn \<le> row ! j \<and> row ! j \<le> mx) \<and>
            (\<exists>row\<in>set (rs @ [r]). row ! j = mn) \<and> (\<exists>row\<in>set (rs @ [r]). row ! j = mx)"
    if j: "j < n" for j
  proof -
    from new(3) j have lj: "lo' ! j = mathMin (lo ! j) (Some (Fin (r ! j)))"
      and hj: "hi' ! j = mathMax (hi ! j) (Some (Fin (r ! j)))"
      by simp_all
    show ?thesis
    proof (cases "rs = []")
      case True
      with inv j have "lo ! j = Some PosInf" "hi ! j = Some NegInf" by (simp_all add: colInv_def)
      with lj hj True show ?thesis by (simp add: min_def max_def)
    next
      case False
      with inv j have "\<exists>mn mx. lo ! j = Some (Fin mn) \<and> hi ! j = Some (Fin mx) \<and>
          (\<forall>row\<in>set rs. mn \<le> row ! j \<and> row ! j \<le> mx) \<and>
          (\<exists>row\<in>set rs. row ! j = mn) \<and> (\<exists>row\<in>set rs. row ! j = mx)"
        by (simp add: colInv_def)
      then obtain mn mx where o: "lo ! j = Some (Fin mn)" "hi ! j = Some (Fin mx)"
        "\<forall>row\<in>set rs. mn \<le> row ! j \<and> row ! j \<le> mx"
        "\<exists>row\<in>set rs. row ! j = mn" "\<exists>row\<in>set rs. row ! j = mx"
        by blast
      have a: "lo' ! j = Some (Fin (min mn (r ! j)))" "hi' ! j = Some (Fin (max mx (r ! j)))"
        using lj hj o(1,2) by (simp_all add: min_def max_def)
      have b: "\<forall>row\<in>set (rs @ [r]). min mn (r ! j) \<le> row ! j \<and> row ! j \<le> max mx (r ! j)"
        using o(3) by (auto simp: min_def max_def)
      have c: "\<exists>row\<in>set (rs @ [r]). row ! j = min mn (r ! j)"
        using o(4) by (auto simp: min_def)
      have d: "\<exists>row\<in>set (rs @ [r]). row ! j = max mx (r ! j)"
        using o(5) by (auto simp: max_def)
      from a b c d show ?thesis by blast
    qed
  qed
  have "colInv n (rs @ [r]) (lo', hi')"
    unfolding colInv_def using new(1,2) col by simp
  then show ?case by (simp add: st st')
qed

lemma normalizeValue_finite:
  assumes lo: "readAt lo j = Some (Fin mn)" and hi: "readAt hi j = Some (Fin mx)"
    and b: "mn \<le> v" "v \<le> mx" and r: "mx - mn < overflowAt" and d: "\<bar>v\<bar> < overflowAt" "\<bar>mn\<bar> < overflowAt"
  shows "\<exists>x. normalizeValue lo hi (Some (Fin v)) j = Some (Fin x) \<and> 0 \<le> x \<and> x \<le> 1
           \<and> x * (mx - mn) + mn = v
           \<and> reconstructValue lo hi (Some (Fin x)) j = Some (Fin v)
           \<and> (mx = mn \<longrightarrow> x = 0 \<and> v = mn)"
proof -
  from b r overflowAt_pos have rg: "number (mx - mn) = Some (Fin (mx - mn))"
    by (intro number_Fin) simp
  from b r overflowAt_pos have nm: "number (v - mn) = Some (Fin (v - mn))"
    by (intro number_Fin) simp
  have one: "1 < overflowAt" using overflowAt_big by simp
  show ?thesis
  proof (cases "mx = mn")
    case True
    with b have v: "v = mn" by simp
    have "normalizeValue lo hi (Some (Fin v)) j = Some (Fin 0)"
      using True lo hi overflowAt_pos by (simp add: normalizeValue_def Let_def number_def)
    moreover have "reconstructValue lo hi (Some (Fin 0)) j = Some (Fin v)"
      using True lo hi v d overflowAt_pos by (simp add: reconstructValue_def number_Fin)
    ultimately show ?thesis using True v by simp
  next
    case False
    with b have pos: "0 < mx - mn" by simp
    let ?x = "(v - mn) / (mx - mn)"
    have x01: "0 \<le> ?x" "?x \<le> 1" using b pos by (simp_all add: divide_le_eq)
    have ax: "\<bar>?x\<bar> = ?x" using x01(1) by (rule abs_of_nonneg)
    have "\<bar>?x\<bar> < overflowAt" unfolding ax using x01(2) one by linarith
    then have nq: "number ?x = Some (Fin ?x)" by (rule number_Fin)
    have nv: "normalizeValue lo hi (Some (Fin v)) j = Some (Fin ?x)"
      using False lo hi rg nm nq pos by (simp add: normalizeValue_def Let_def)
    have prod: "?x * (mx - mn) = v - mn" using pos by simp
    have "reconstructValue lo hi (Some (Fin ?x)) j = jsAdd (number (?x * (mx - mn))) (Some (Fin mn))"
      using lo hi rg by (simp add: reconstructValue_def)
    also have "\<dots> = jsAdd (Some (Fin (v - mn))) (Some (Fin mn))"
      unfolding prod nm ..
    also have "\<dots> = Some (Fin v)" using d by (simp add: number_Fin)
    finally have rc: "reconstructValue lo hi (Some (Fin ?x)) j = Some (Fin v)" .
    from nv x01 prod rc False show ?thesis by simp
  qed
qed

lemma normalizeFeatures_overflow:
  assumes "0 < a" and "overflowAt \<le> 2 * a"
  shows "normalizeFeatures [[Some (Fin a)], [Some (Fin (- a))]] =
           Inr \<lparr>normalized = [[None], [Some (Fin 0)]],
                mins = [Some (Fin (- a))], maxs = [Some (Fin a)]\<rparr>"
    and "reconstructValue [Some (Fin (- a))] [Some (Fin a)] (Some (Fin 0)) 0 = None"
    and "reconstructValue [Some (Fin (- a))] [Some (Fin a)] None 0 = None"
proof -
  have big: "number (a - - a) = Some PosInf" "number (a + a) = Some PosInf"
    using assms by (simp_all add: number_def)
  have z: "number 0 = Some (Fin 0)" using overflowAt_pos by (simp add: number_def)
  have le: "\<not> a \<le> - a" using assms(1) by simp
  show "normalizeFeatures [[Some (Fin a)], [Some (Fin (- a))]] =
           Inr \<lparr>normalized = [[None], [Some (Fin 0)]],
                mins = [Some (Fin (- a))], maxs = [Some (Fin a)]\<rparr>"
    using big z le
    by (simp add: normalizeFeatures_def Let_def minMaxCell_def storeAt_def readAt_def
          normalizeValue_def min_def max_def)
  show "reconstructValue [Some (Fin (- a))] [Some (Fin a)] (Some (Fin 0)) 0 = None"
    "reconstructValue [Some (Fin (- a))] [Some (Fin a)] None 0 = None"
    using big by (simp_all add: reconstructValue_def readAt_def)
qed

lemma normalizeFeatures_nan_cell:
  "normalizeFeatures [[Some (Fin 1)], [None]] =
     Inr \<lparr>normalized = [[None], [None]], mins = [None], maxs = [None]\<rparr>"
  by (simp add: normalizeFeatures_def Let_def minMaxCell_def storeAt_def readAt_def
        normalizeValue_def min_def max_def)

text \<open>
  C9, as stated, fails. For the matrix with the rows [1e308] and [-1e308] the range
  \<open>maxs[0] - mins[0]\<close> overflows to \<open>Infinity\<close>: the first normalised value is \<open>NaN\<close> and the
  second is 0, whose reconstruction \<open>0 * Infinity + mins[0]\<close> is \<open>NaN\<close>. For the matrix
  with the rows [1] and [NaN] both bounds and both normalised values are \<open>NaN\<close>. Neither
  reconstruction gives back the original values.
\<close>

theorem normalizeFeatures_not_a_number_counterexample:
  "normalizeFeatures [[Some (Fin (10 ^ 308))], [Some (Fin (- (10 ^ 308)))]] =
     Inr \<lparr>normalized = [[None], [Some (Fin 0)]],
          mins = [Some (Fin (- (10 ^ 308)))], maxs = [Some (Fin (10 ^ 308))]\<rparr>
   \<and> reconstructValue [Some (Fin (- (10 ^ 308)))] [Some (Fin (10 ^ 308))] (Some (Fin 0)) 0 = None
   \<and> reconstructValue [Some (Fin (- (10 ^ 308)))] [Some (Fin (10 ^ 308))] None 0 = None
   \<and> normalizeFeatures [[Some (Fin 1)], [None]] =
       Inr \<lparr>normalized = [[None], [None]], mins = [None], maxs = [None]\<rparr>"
proof -
  have p: "(0::real) < 10 ^ 308" by simp
  note o = normalizeFeatures_overflow[OF p overflowAt_small]
  from o normalizeFeatures_nan_cell show ?thesis by blast
qed

text \<open>
  C9, amended. For a non-empty matrix with rows of equal length whose cells are finite
  numbers, and in which two cells of the same column never differ by as much as the overflow
  threshold, \<open>normalizeFeatures\<close> returns, for every column, its least value as \<open>mins\<close> and
  its greatest as \<open>maxs\<close>, and every normalised value \<open>x\<close> is a number between 0 and 1 with
  \<open>x * (max - min) + min = value\<close>: the reconstruction gives back the original. A column
  whose least and greatest value coincide is normalised to 0 in every sample, with no
  division, and its values equal the stored minimum. Rounding is not represented, so the
  reconstruction is exact.
\<close>

theorem normalizeFeatures_round_trip:
  assumes ne: "vs \<noteq> []" and rect: "\<forall>row\<in>set vs. length row = length (hd vs)"
    and dbl: "\<forall>row\<in>set vs. \<forall>v\<in>set row. \<bar>v\<bar> < overflowAt"
    and rng: "\<forall>r1\<in>set vs. \<forall>r2\<in>set vs. \<forall>j<length (hd vs). r1 ! j - r2 ! j < overflowAt"
  shows "\<exists>r. normalizeFeatures (map (map (\<lambda>v. Some (Fin v))) vs) = Inr r
           \<and> length (normalized r) = length vs
           \<and> length (mins r) = length (hd vs) \<and> length (maxs r) = length (hd vs)
           \<and> (\<forall>i<length vs. \<forall>j<length (hd vs).
                \<exists>mn mx x. mins r ! j = Some (Fin mn) \<and> maxs r ! j = Some (Fin mx)
                  \<and> (\<forall>k<length vs. mn \<le> vs ! k ! j \<and> vs ! k ! j \<le> mx)
                  \<and> (\<exists>k<length vs. vs ! k ! j = mn) \<and> (\<exists>k<length vs. vs ! k ! j = mx)
                  \<and> normalized r ! i ! j = Some (Fin x)
                  \<and> 0 \<le> x \<and> x \<le> 1
                  \<and> x * (mx - mn) + mn = vs ! i ! j
                  \<and> reconstructValue (mins r) (maxs r) (normalized r ! i ! j) j = Some (Fin (vs ! i ! j))
                  \<and> (mx = mn \<longrightarrow> x = 0 \<and> vs ! i ! j = mn))"
proof -
  let ?n = "length (hd vs)"
  let ?fs = "map (map (\<lambda>v. Some (Fin v))) vs"
  let ?st = "foldl (\<lambda>st sample. foldl minMaxCell st (zip sample [0..<length sample]))
            (replicate ?n (Some PosInf), replicate ?n (Some NegInf)) ?fs"
  obtain lo hi where st: "?st = (lo, hi)" by (cases ?st)
  let ?r = "\<lparr>normalized = map (\<lambda>sample. map (\<lambda>(v, i). normalizeValue lo hi v i)
                                        (zip sample [0..<length sample])) ?fs,
             mins = lo, maxs = hi\<rparr>"
  from ne obtain row0 rest where vs: "vs = row0 # rest" by (cases vs) auto
  have nf: "normalizeFeatures ?fs = Inr ?r"
    using st by (simp add: normalizeFeatures_def vs Let_def)
  from colInv_fold[OF rect] st have inv: "colInv ?n vs (lo, hi)" by simp
  then have len: "length lo = ?n" "length hi = ?n" by (simp_all add: colInv_def)
  have cell: "\<exists>mn mx x. lo ! j = Some (Fin mn) \<and> hi ! j = Some (Fin mx)
                  \<and> (\<forall>k<length vs. mn \<le> vs ! k ! j \<and> vs ! k ! j \<le> mx)
                  \<and> (\<exists>k<length vs. vs ! k ! j = mn) \<and> (\<exists>k<length vs. vs ! k ! j = mx)
                  \<and> normalized ?r ! i ! j = Some (Fin x)
                  \<and> 0 \<le> x \<and> x \<le> 1
                  \<and> x * (mx - mn) + mn = vs ! i ! j
                  \<and> reconstructValue lo hi (normalized ?r ! i ! j) j = Some (Fin (vs ! i ! j))
                  \<and> (mx = mn \<longrightarrow> x = 0 \<and> vs ! i ! j = mn)"
    if i: "i < length vs" and j: "j < ?n" for i j
  proof -
    from inv j ne have "\<exists>mn mx. lo ! j = Some (Fin mn) \<and> hi ! j = Some (Fin mx) \<and>
          (\<forall>row\<in>set vs. mn \<le> row ! j \<and> row ! j \<le> mx) \<and>
          (\<exists>row\<in>set vs. row ! j = mn) \<and> (\<exists>row\<in>set vs. row ! j = mx)"
      by (simp add: colInv_def)
    then obtain mn mx where o: "lo ! j = Some (Fin mn)" "hi ! j = Some (Fin mx)"
        "\<forall>row\<in>set vs. mn \<le> row ! j \<and> row ! j \<le> mx"
        "\<exists>row\<in>set vs. row ! j = mn" "\<exists>row\<in>set vs. row ! j = mx"
      by blast
    have b: "\<forall>k<length vs. mn \<le> vs ! k ! j \<and> vs ! k ! j \<le> mx"
      using o(3) by simp
    have c: "\<exists>k<length vs. vs ! k ! j = mn" "\<exists>k<length vs. vs ! k ! j = mx"
      using o(4,5) by (auto simp: in_set_conv_nth)
    from i rect have li: "length (vs ! i) = ?n" by simp
    from o(4,5) rng j have r: "mx - mn < overflowAt" by blast
    from o(4) obtain rowm where rowm: "rowm \<in> set vs" "rowm ! j = mn" by blast
    with rect j have "mn \<in> set rowm" by (auto simp: in_set_conv_nth)
    with dbl rowm(1) have dmn: "\<bar>mn\<bar> < overflowAt" by blast
    from i j li have "vs ! i ! j \<in> set (vs ! i)" by simp
    with dbl i have dv: "\<bar>vs ! i ! j\<bar> < overflowAt" by (meson nth_mem)
    from b i have bi: "mn \<le> vs ! i ! j" "vs ! i ! j \<le> mx" by simp_all
    have rl: "readAt lo j = Some (Fin mn)" "readAt hi j = Some (Fin mx)"
      using o(1,2) len j by (simp_all add: readAt_def)
    from normalizeValue_finite[OF rl bi r dv dmn] obtain x where
      x: "normalizeValue lo hi (Some (Fin (vs ! i ! j))) j = Some (Fin x)" "0 \<le> x" "x \<le> 1"
         "x * (mx - mn) + mn = vs ! i ! j"
         "reconstructValue lo hi (Some (Fin x)) j = Some (Fin (vs ! i ! j))"
         "mx = mn \<longrightarrow> x = 0 \<and> vs ! i ! j = mn"
      by blast
    have nv: "normalized ?r ! i ! j = Some (Fin x)"
      using i j li x(1) by simp
    from o(1,2) b c nv x show ?thesis by auto
  qed
  have "length (normalized ?r) = length vs" by simp
  with nf len cell show ?thesis
    by (intro exI[of _ ?r]) simp
qed

theorem normalizeFeatures_round_trip_witness:
  "\<exists>r. normalizeFeatures [[Some (Fin 1), Some (Fin 5)], [Some (Fin 3), Some (Fin 5)]] = Inr r
       \<and> mins r = [Some (Fin 1), Some (Fin 5)] \<and> maxs r = [Some (Fin 3), Some (Fin 5)]
       \<and> normalized r = [[Some (Fin 0), Some (Fin 0)], [Some (Fin 1), Some (Fin 0)]]
       \<and> (\<exists>mn mx x. mins r ! 0 = Some (Fin mn) \<and> maxs r ! 0 = Some (Fin mx)
             \<and> normalized r ! 1 ! 0 = Some (Fin x) \<and> x * (mx - mn) + mn = 3)
       \<and> reconstructValue (mins r) (maxs r) (normalized r ! 1 ! 0) 0 = Some (Fin 3)
       \<and> (\<exists>mn mx x. mins r ! 1 = Some (Fin mn) \<and> maxs r ! 1 = Some (Fin mx)
             \<and> normalized r ! 1 ! 1 = Some (Fin x) \<and> x * (mx - mn) + mn = 5 \<and> x = 0 \<and> mn = 5)"
proof -
  let ?vs = "[[1, 5], [3, 5]] :: real list list"
  let ?fs = "[[Some (Fin 1), Some (Fin 5)], [Some (Fin 3), Some (Fin 5)]]"
  have fs: "map (map (\<lambda>v. Some (Fin v))) ?vs = ?fs" by simp
  have ne: "?vs \<noteq> []" and rect: "\<forall>row\<in>set ?vs. length row = length (hd ?vs)" by simp_all
  have dbl: "\<forall>row\<in>set ?vs. \<forall>v\<in>set row. \<bar>v\<bar> < overflowAt"
    using overflowAt_big by simp
  have rng: "\<forall>r1\<in>set ?vs. \<forall>r2\<in>set ?vs. \<forall>j<length (hd ?vs). r1 ! j - r2 ! j < overflowAt"
    using overflowAt_big by (simp add: less_Suc_eq numeral_2_eq_2)
  from normalizeFeatures_round_trip[OF ne rect dbl rng] obtain r where r: "normalizeFeatures ?fs = Inr r"
    and rt: "\<forall>i<length ?vs. \<forall>j<length (hd ?vs).
                \<exists>mn mx x. mins r ! j = Some (Fin mn) \<and> maxs r ! j = Some (Fin mx)
                  \<and> (\<forall>k<length ?vs. mn \<le> ?vs ! k ! j \<and> ?vs ! k ! j \<le> mx)
                  \<and> (\<exists>k<length ?vs. ?vs ! k ! j = mn) \<and> (\<exists>k<length ?vs. ?vs ! k ! j = mx)
                  \<and> normalized r ! i ! j = Some (Fin x)
                  \<and> 0 \<le> x \<and> x \<le> 1
                  \<and> x * (mx - mn) + mn = ?vs ! i ! j
                  \<and> reconstructValue (mins r) (maxs r) (normalized r ! i ! j) j = Some (Fin (?vs ! i ! j))
                  \<and> (mx = mn \<longrightarrow> x = 0 \<and> ?vs ! i ! j = mn)"
    unfolding fs by blast
  have ev: "normalizeFeatures ?fs = Inr \<lparr>normalized = [[Some (Fin 0), Some (Fin 0)], [Some (Fin 1), Some (Fin 0)]],
       mins = [Some (Fin 1), Some (Fin 5)], maxs = [Some (Fin 3), Some (Fin 5)]\<rparr>"
    by (simp add: normalizeFeatures_def Let_def minMaxCell_def storeAt_def readAt_def
          normalizeValue_def upt_rec numeral_2_eq_2 min_def max_def number_small)
  from r ev have req: "r = \<lparr>normalized = [[Some (Fin 0), Some (Fin 0)], [Some (Fin 1), Some (Fin 0)]],
       mins = [Some (Fin 1), Some (Fin 5)], maxs = [Some (Fin 3), Some (Fin 5)]\<rparr>" by simp
  from rt[rule_format, of 1 0] rt[rule_format, of 1 1] r req show ?thesis
    by (intro exI[of _ r]) auto
qed

end
